theory Spec2Isabelle
  imports Main
begin

section \<open>The graph grouper: dominator sets and dominance-guided region selection\<close>

text \<open>
  A shallow embedding of \<^verbatim>\<open>src/graph_grouper.cpp\<close>: the bit-vector class \<^verbatim>\<open>bitsett\<close>,
  the constructor and the query of \<^verbatim>\<open>DominatorInfo\<close>, and the recursive \<^verbatim>\<open>add_nodes\<close>.
  Node ids are C++ \<^verbatim>\<open>int\<close>s that index vectors; they are modelled as natural numbers
  (the graph view yields no negative id, and \<^verbatim>\<open>run\<close> rejects the start node \<open>-1\<close>).
\<close>

subsection \<open>Errors\<close>

text \<open>
  \<^verbatim>\<open>std::vector::at\<close> throws \<^verbatim>\<open>std::out_of_range\<close> on an index beyond the end
  (\<open>OutOfRange\<close>); the unchecked \<^verbatim>\<open>operator[]\<close> of \<^verbatim>\<open>doms[...]\<close> beyond the end is
  undefined behaviour (\<open>Undefined\<close>). Both end the computation with \<open>Inl\<close>.
\<close>

datatype error = OutOfRange | Undefined

subsection \<open>The host's graph view\<close>

text \<open>
  \<^verbatim>\<open>mutable_graph_t\<close> belongs to the host's SDK and is not part of the source file, so the
  graph is a parameter: \<open>g_size\<close> is \<^verbatim>\<open>graph->size()\<close>, \<open>g_nodes\<close> the nodes in the order
  \<^verbatim>\<open>graph->begin()\<close> \dots \<^verbatim>\<open>graph->end()\<close> yields them, \<open>g_entry\<close> is \<^verbatim>\<open>graph->entry()\<close>,
  \<open>g_pred n\<close> the list \<^verbatim>\<open>graph->pred(n, 0)\<close> \dots \<^verbatim>\<open>graph->pred(n, npred(n) - 1)\<close> and
  \<open>g_succ n\<close> the same for the successors.
\<close>

record graph =
  g_size :: nat
  g_nodes :: "nat list"
  g_entry :: nat
  g_pred :: "nat \<Rightarrow> nat list"
  g_succ :: "nat \<Rightarrow> nat list"

text \<open>
  The contract of the graph view (spec, section 3): the iteration visits exactly the ids
  below \<open>g_size\<close>, the entry is one of them, and every edge stays among them.
\<close>

definition wf_graph :: "graph \<Rightarrow> bool" where
  "wf_graph g \<longleftrightarrow>
     g_entry g < g_size g \<and>
     list_all (\<lambda>n. n < g_size g) (g_nodes g) \<and>
     list_all (\<lambda>n. n \<in> set (g_nodes g)) [0..<g_size g] \<and>
     list_all (\<lambda>n. list_all (\<lambda>p. p < g_size g) (g_pred g n)) [0..<g_size g] \<and>
     list_all (\<lambda>n. list_all (\<lambda>s. s < g_size g) (g_succ g n)) [0..<g_size g]"

subsection \<open>bitsett\<close>

type_synonym bitsett = "bool list"

text \<open>\<^verbatim>\<open>std::vector::resize(n)\<close>: cut to \<open>n\<close> elements or pad with the default value.\<close>

definition resize :: "nat \<Rightarrow> 'a \<Rightarrow> 'a list \<Rightarrow> 'a list" where
  "resize n dflt xs = take n xs @ replicate (n - length xs) dflt"

text \<open>
  \<^verbatim>\<open>operator|=\<close>: the loop over \<open>i\<close>, from \<open>i\<close> on. \<^verbatim>\<open>at(i)\<close> is within range by the loop
  condition; \<^verbatim>\<open>rhs.at(i)\<close> is only evaluated when \<^verbatim>\<open>at(i) == false\<close> and throws when
  \<open>rhs\<close> is too short.
\<close>

function or_loop :: "nat \<Rightarrow> bitsett \<Rightarrow> bitsett \<Rightarrow> error + bitsett" where
  "or_loop i self rhs =
     (if i < length self then
        (if self ! i = False then
           (if i < length rhs then
              (if rhs ! i = True then or_loop (Suc i) (self[i := True]) rhs
               else or_loop (Suc i) self rhs)
            else Inl OutOfRange)
         else or_loop (Suc i) self rhs)
      else Inr self)"
  by pat_completeness auto
termination
  by (relation "measure (\<lambda>(i, self, rhs). length self - i)") auto

declare or_loop.simps [simp del]

definition bitsett_or :: "bitsett \<Rightarrow> bitsett \<Rightarrow> error + bitsett" where
  "bitsett_or self rhs = or_loop 0 self rhs"

text \<open>
  \<^verbatim>\<open>operator&=\<close>: \<^verbatim>\<open>rhs.at(i)\<close> is only evaluated when \<^verbatim>\<open>at(i) == true\<close>. When \<open>rhs\<close>
  is the object itself (a self-loop edge), no bit is both true and false, so nothing is
  written; reading the right-hand side from the value before the loop gives the same.
\<close>

function and_loop :: "nat \<Rightarrow> bitsett \<Rightarrow> bitsett \<Rightarrow> error + bitsett" where
  "and_loop i self rhs =
     (if i < length self then
        (if self ! i = True then
           (if i < length rhs then
              (if rhs ! i = False then and_loop (Suc i) (self[i := False]) rhs
               else and_loop (Suc i) self rhs)
            else Inl OutOfRange)
         else and_loop (Suc i) self rhs)
      else Inr self)"
  by pat_completeness auto
termination
  by (relation "measure (\<lambda>(i, self, rhs). length self - i)") auto

declare and_loop.simps [simp del]

definition bitsett_and :: "bitsett \<Rightarrow> bitsett \<Rightarrow> error + bitsett" where
  "bitsett_and self rhs = and_loop 0 self rhs"

text \<open>\<^verbatim>\<open>set(void)\<close> and \<^verbatim>\<open>reset(void)\<close>: same size, every bit true (false).\<close>

definition bitsett_set_all :: "bitsett \<Rightarrow> bitsett" where
  "bitsett_set_all self = replicate (length self) True"

definition bitsett_reset :: "bitsett \<Rightarrow> bitsett" where
  "bitsett_reset self = replicate (length self) False"

text \<open>\<^verbatim>\<open>set(int n)\<close> and \<^verbatim>\<open>test(int n)\<close> go through the checked \<^verbatim>\<open>at(n)\<close>.\<close>

definition bitsett_set :: "bitsett \<Rightarrow> nat \<Rightarrow> error + bitsett" where
  "bitsett_set self n = (if n < length self then Inr (self[n := True]) else Inl OutOfRange)"

definition bitsett_test :: "bitsett \<Rightarrow> nat \<Rightarrow> error + bool" where
  "bitsett_test self n = (if n < length self then Inr (self ! n) else Inl OutOfRange)"

subsection \<open>DominatorInfo\<close>

text \<open>The object holds one field, \<^verbatim>\<open>doms\<close>: a dominator set per node id.\<close>

type_synonym dominfo = "bitsett list"

text \<open>The first loop of the constructor: size every visited node's set and fill it.\<close>

fun init_loop :: "nat \<Rightarrow> nat list \<Rightarrow> dominfo \<Rightarrow> error + dominfo" where
  "init_loop numNodes [] doms = Inr doms"
| "init_loop numNodes (node # rest) doms =
     (if node < length doms then
        init_loop numNodes rest
          (doms[node := bitsett_set_all (resize numNodes False (doms ! node))])
      else Inl Undefined)"

text \<open>\<^verbatim>\<open>doms[entry].reset(); doms[entry].set(entry);\<close>\<close>

definition init_entry :: "nat \<Rightarrow> dominfo \<Rightarrow> error + dominfo" where
  "init_entry e doms =
     (if e < length doms then
        (case bitsett_set (bitsett_reset (doms ! e)) e of
           Inl err \<Rightarrow> Inl err
         | Inr b \<Rightarrow> Inr (doms[e := b]))
      else Inl Undefined)"

text \<open>
  The state of the fixed-point loop: \<^verbatim>\<open>doms\<close>, the scratch set \<^verbatim>\<open>t\<close> and the flag
  \<^verbatim>\<open>changed\<close>. One run of the body of the loop over the predecessors:
\<close>

type_synonym dstate = "dominfo \<times> bitsett \<times> bool"

definition pred_step :: "nat \<Rightarrow> nat \<Rightarrow> dstate \<Rightarrow> error + dstate" where
  "pred_step node pred st =
     (case st of (doms, t, changed) \<Rightarrow>
        if node < length doms then
          (case bitsett_or (bitsett_reset t) (doms ! node) of
             Inl err \<Rightarrow> Inl err
           | Inr t' \<Rightarrow>
               if pred < length doms then
                 (case bitsett_and (doms ! node) (doms ! pred) of
                    Inl err \<Rightarrow> Inl err
                  | Inr d \<Rightarrow>
                      (case bitsett_set d node of
                         Inl err \<Rightarrow> Inl err
                       | Inr d' \<Rightarrow>
                           Inr (doms[node := d'], t', if d' \<noteq> t' then True else changed)))
               else Inl Undefined)
        else Inl Undefined)"

fun preds_loop :: "nat \<Rightarrow> nat list \<Rightarrow> dstate \<Rightarrow> error + dstate" where
  "preds_loop node [] st = Inr st"
| "preds_loop node (pred # rest) st =
     (case pred_step node pred st of
        Inl err \<Rightarrow> Inl err
      | Inr st' \<Rightarrow> preds_loop node rest st')"

text \<open>One pass over the nodes, the entry node skipped.\<close>

fun nodes_loop :: "graph \<Rightarrow> nat list \<Rightarrow> dstate \<Rightarrow> error + dstate" where
  "nodes_loop g [] st = Inr st"
| "nodes_loop g (node # rest) st =
     (if node = g_entry g then nodes_loop g rest st
      else
        (case preds_loop node (g_pred g node) st of
           Inl err \<Rightarrow> Inl err
         | Inr st' \<Rightarrow> nodes_loop g rest st'))"

text \<open>
  The \<^verbatim>\<open>do ... while (changed)\<close> loop. Nothing in the code bounds the number of passes,
  so the loop is a partial function: \<open>None\<close> is a loop that never exits.
\<close>

partial_function (option) do_while :: "graph \<Rightarrow> dominfo \<times> bitsett \<Rightarrow> (error + dominfo \<times> bitsett) option" where
  "do_while g st =
     (case nodes_loop g (g_nodes g) (fst st, snd st, False) of
        Inl err \<Rightarrow> Some (Inl err)
      | Inr (doms, t, changed) \<Rightarrow>
          if changed then do_while g (doms, t) else Some (Inr (doms, t)))"

declare do_while.simps [code]

text \<open>
  The constructor \<^verbatim>\<open>DominatorInfo(mutable_graph_t *graph)\<close>: first everything before
  the loop (\<^verbatim>\<open>doms.resize\<close>, the sizing loop, the entry node's set, the scratch set
  \<^verbatim>\<open>t\<close>), then the loop; the object keeps \<^verbatim>\<open>doms\<close>.
\<close>

definition init_state :: "graph \<Rightarrow> error + dominfo \<times> bitsett" where
  "init_state g =
     (let numNodes = g_size g in
      case init_loop numNodes (g_nodes g) (resize numNodes [] []) of
        Inl err \<Rightarrow> Inl err
      | Inr doms \<Rightarrow>
          (case init_entry (g_entry g) doms of
             Inl err \<Rightarrow> Inl err
           | Inr doms' \<Rightarrow> Inr (doms', bitsett_reset (resize numNodes False []))))"

definition DominatorInfo :: "graph \<Rightarrow> (error + dominfo) option" where
  "DominatorInfo g =
     (case init_state g of
        Inl err \<Rightarrow> Some (Inl err)
      | Inr st \<Rightarrow>
          (case do_while g st of
             None \<Rightarrow> None
           | Some (Inl err) \<Rightarrow> Some (Inl err)
           | Some (Inr (doms, t)) \<Rightarrow> Some (Inr doms)))"

text \<open>\<^verbatim>\<open>dominates_node(node, node2)\<close>: does \<open>node\<close> dominate \<open>node2\<close>?\<close>

definition dominates_node :: "dominfo \<Rightarrow> nat \<Rightarrow> nat \<Rightarrow> error + bool" where
  "dominates_node doms node node2 =
     (if node2 < length doms then bitsett_test (doms ! node2) node else Inl Undefined)"

subsection \<open>add\_nodes\<close>

text \<open>
  \<^verbatim>\<open>is_end_node\<close> asks the host's database for the comment of the node; it is the
  parameter \<open>is_end\<close>. The state is the vector \<^verbatim>\<open>nodes\<close> together with the log of the
  nodes \<^verbatim>\<open>is_end_node\<close> has been called on, in call order. The recursion is bounded by
  fuel, the depth of the call stack left: \<open>None\<close> is a stack that ran out.
\<close>

type_synonym selection = "nat list \<times> nat list"

fun add_nodes :: "nat \<Rightarrow> graph \<Rightarrow> dominfo \<Rightarrow> (nat \<Rightarrow> bool) \<Rightarrow> selection \<Rightarrow> nat \<Rightarrow> nat
                    \<Rightarrow> (error + selection) option"
  and succ_loop :: "nat \<Rightarrow> graph \<Rightarrow> dominfo \<Rightarrow> (nat \<Rightarrow> bool) \<Rightarrow> selection \<Rightarrow> nat \<Rightarrow> nat list
                    \<Rightarrow> (error + selection) option" where
  "add_nodes 0 g d is_end sel startNode node = None"
| "add_nodes (Suc fuel) g d is_end sel startNode node =
     (if is_end node then Some (Inr (fst sel, snd sel @ [node]))
      else succ_loop fuel g d is_end (fst sel @ [node], snd sel @ [node]) startNode
             (g_succ g node))"
| "succ_loop fuel g d is_end sel startNode [] = Some (Inr sel)"
| "succ_loop fuel g d is_end sel startNode (succ # rest) =
     (if succ \<notin> set (fst sel) then
        (case dominates_node d startNode succ of
           Inl err \<Rightarrow> Some (Inl err)
         | Inr dominated \<Rightarrow>
             if dominated then
               (case add_nodes fuel g d is_end sel startNode succ of
                  None \<Rightarrow> None
                | Some (Inl err) \<Rightarrow> Some (Inl err)
                | Some (Inr sel') \<Rightarrow> succ_loop fuel g d is_end sel' startNode rest)
             else succ_loop fuel g d is_end sel startNode rest)
      else succ_loop fuel g d is_end sel startNode rest)"

text \<open>
  The call in \<^verbatim>\<open>run\<close>: \<^verbatim>\<open>intvec_t nodeSet; add_nodes(graph, &dominatorInfo, nodeSet,
  startNode, startNode);\<close>
\<close>

definition run_add_nodes :: "nat \<Rightarrow> graph \<Rightarrow> dominfo \<Rightarrow> (nat \<Rightarrow> bool) \<Rightarrow> nat \<Rightarrow> (error + selection) option" where
  "run_add_nodes fuel g d is_end startNode = add_nodes fuel g d is_end ([], []) startNode startNode"

subsection \<open>Example graphs\<close>

text \<open>The linear chain 0 \<rightarrow> 1 \<rightarrow> 2 \<rightarrow> 3 with entry 0, and the table the constructor builds for it.\<close>

definition chain_graph :: graph where
  "chain_graph =
     \<lparr> g_size = 4, g_nodes = [0, 1, 2, 3], g_entry = 0,
       g_pred = (\<lambda>n. if n = 1 then [0] else if n = 2 then [1] else if n = 3 then [2] else []),
       g_succ = (\<lambda>n. if n = 0 then [1] else if n = 1 then [2] else if n = 2 then [3] else []) \<rparr>"

definition chain_doms :: dominfo where
  "chain_doms =
     [[True, False, False, False], [True, True, False, False],
      [True, True, True, False], [True, True, True, True]]"

text \<open>The diamond 0 \<rightarrow> 1, 0 \<rightarrow> 2, 1 \<rightarrow> 3, 2 \<rightarrow> 3 with entry 0, and its table.\<close>

definition diamond_graph :: graph where
  "diamond_graph =
     \<lparr> g_size = 4, g_nodes = [0, 1, 2, 3], g_entry = 0,
       g_pred = (\<lambda>n. if n = 1 then [0] else if n = 2 then [0] else if n = 3 then [1, 2] else []),
       g_succ = (\<lambda>n. if n = 0 then [1, 2] else if n = 1 then [3] else if n = 2 then [3] else []) \<rparr>"

definition diamond_doms :: dominfo where
  "diamond_doms =
     [[True, False, False, False], [True, True, False, False],
      [True, False, True, False], [True, False, False, True]]"

text \<open>The diamond with every successor list in the opposite order.\<close>

definition diamond_rev :: graph where
  "diamond_rev = diamond_graph \<lparr> g_succ := (\<lambda>n. rev (g_succ diamond_graph n)) \<rparr>"

text \<open>The state of the chain's construction before its loop.\<close>

definition chain_init :: "dominfo \<times> bitsett" where
  "chain_init =
     ([[True, False, False, False], [True, True, True, True],
       [True, True, True, True], [True, True, True, True]],
      [False, False, False, False])"

text \<open>
  Three nodes with the edges 0 \<rightarrow> 1 and 2 \<rightarrow> 1 and entry 0: node 2 has no predecessor and is
  not the entry.
\<close>

definition orphan_graph :: graph where
  "orphan_graph =
     \<lparr> g_size = 3, g_nodes = [0, 1, 2], g_entry = 0,
       g_pred = (\<lambda>n. if n = 1 then [0, 2] else []),
       g_succ = (\<lambda>n. if n = 0 then [1] else if n = 2 then [1] else []) \<rparr>"

text \<open>The boundary predicate that marks exactly one node.\<close>

definition only_node :: "nat \<Rightarrow> nat \<Rightarrow> bool" where
  "only_node b n \<longleftrightarrow> n = b"

subsection \<open>Notions the properties are stated with\<close>

text \<open>The nodes reachable from the entry node along successor edges.\<close>

inductive reachable :: "graph \<Rightarrow> nat \<Rightarrow> bool" for g :: graph where
  entry: "reachable g (g_entry g)"
| succ: "reachable g n \<Longrightarrow> m \<in> set (g_succ g n) \<Longrightarrow> reachable g m"

text \<open>
  What holds at the head of the fixed-point loop: every set has \<open>g_size\<close> bits, a node's
  own bit and the entry's bit are set, and a node other than the entry without
  predecessors has all bits set.
\<close>

definition loop_inv :: "graph \<Rightarrow> dominfo \<times> bitsett \<Rightarrow> bool" where
  "loop_inv g st \<longleftrightarrow>
     length (fst st) = g_size g \<and> length (snd st) = g_size g \<and>
     list_all
       (\<lambda>n. length (fst st ! n) = g_size g \<and> fst st ! n ! n \<and> fst st ! n ! g_entry g \<and>
            (n \<noteq> g_entry g \<and> g_pred g n = [] \<longrightarrow> fst st ! n = replicate (g_size g) True))
       [0..<g_size g]"

text \<open>The set bits of a table, as pairs (node, bit).\<close>

definition true_bits :: "dominfo \<Rightarrow> (nat \<times> nat) set" where
  "true_bits doms = {(n, i). n < length doms \<and> i < length (doms ! n) \<and> doms ! n ! i}"

text \<open>
  The region as a closure: the start node unless it is an end node, and every successor
  of a member that the start node dominates and that is not an end node. It depends on
  the successor lists only through their sets.
\<close>

inductive_set region_of :: "(nat \<Rightarrow> nat set) \<Rightarrow> dominfo \<Rightarrow> (nat \<Rightarrow> bool) \<Rightarrow> nat \<Rightarrow> nat set"
  for E :: "nat \<Rightarrow> nat set" and d :: dominfo and is_end :: "nat \<Rightarrow> bool" and s :: nat where
  start: "\<not> is_end s \<Longrightarrow> s \<in> region_of E d is_end s"
| step: "u \<in> region_of E d is_end s \<Longrightarrow> v \<in> E u \<Longrightarrow> dominates_node d s v = Inr True \<Longrightarrow>
         \<not> is_end v \<Longrightarrow> v \<in> region_of E d is_end s"

section \<open>Properties\<close>

subsection \<open>The loop invariant, unfolded\<close>

lemma loop_inv_iff:
  "loop_inv g st \<longleftrightarrow>
     length (fst st) = g_size g \<and> length (snd st) = g_size g \<and>
     (\<forall>n<g_size g.
        length (fst st ! n) = g_size g \<and> fst st ! n ! n \<and> fst st ! n ! g_entry g \<and>
        (n \<noteq> g_entry g \<and> g_pred g n = [] \<longrightarrow> fst st ! n = replicate (g_size g) True))"
  by (simp add: loop_inv_def list_all_iff Ball_def)

subsection \<open>Region selection on the examples\<close>

lemma chain_table: "DominatorInfo chain_graph = Some (Inr chain_doms)"
  by code_simp

text \<open>
  C1 (as the spec states it, refuted): on the chain 0 \<rightarrow> 1 \<rightarrow> 2 \<rightarrow> 3 with node 2 the only end
  node, the region from 0 is not \<open>{0, 1, 2}\<close>: the call on node 2 returns before
  \<^verbatim>\<open>push_back\<close>, so node 2 is not a member.
\<close>

theorem chain_region_boundary_counterexample:
  "DominatorInfo chain_graph = Some (Inr chain_doms) \<and>
   run_add_nodes 3 chain_graph chain_doms (only_node 2) 0 = Some (Inr ([0, 1], [0, 1, 2])) \<and>
   set (fst ([0, 1], [0, 1, 2::nat])) \<noteq> {0, 1, 2::nat}"
  by (simp add: chain_table) code_simp

text \<open>
  C1 (amended): on the chain 0 \<rightarrow> 1 \<rightarrow> 2 \<rightarrow> 3 with node 2 the only end node, the region
  from 0 is \<open>{0, 1}\<close>, whatever call depth beyond three is available: the end node 2 is
  asked about but not added, and its successor 3 is not visited.
\<close>

theorem chain_region_stops_before_boundary:
  "DominatorInfo chain_graph = Some (Inr chain_doms) \<and>
   run_add_nodes (Suc (Suc (Suc fuel))) chain_graph chain_doms (only_node 2) 0
     = Some (Inr ([0, 1], [0, 1, 2]))"
proof -
  have "run_add_nodes (Suc (Suc (Suc fuel))) chain_graph chain_doms (only_node 2) 0
          = Some (Inr ([0, 1], [0, 1, 2]))"
    by (simp add: run_add_nodes_def chain_graph_def chain_doms_def only_node_def
        dominates_node_def bitsett_test_def)
  with chain_table show ?thesis by simp
qed

text \<open>
  C2: when the start node is an end node, the selection returns the empty region:
  nothing is added, the start node included (given a call depth of at least one).
\<close>

theorem boundary_start_gives_empty_region:
  "is_end startNode \<Longrightarrow>
   run_add_nodes (Suc fuel) g d is_end startNode = Some (Inr ([], [startNode]))"
  by (simp add: run_add_nodes_def)

theorem boundary_start_gives_empty_region_witness:
  "only_node 2 2 \<and> run_add_nodes (Suc 0) chain_graph chain_doms (only_node 2) 2 = Some (Inr ([], [2]))"
  using boundary_start_gives_empty_region [of "only_node 2" 2 0 chain_graph chain_doms]
  by (simp add: only_node_def)

subsection \<open>The bit-vector operators on operands of equal size\<close>

lemma or_loop_spec:
  "length self \<le> length rhs \<Longrightarrow>
   \<exists>r. or_loop i self rhs = Inr r \<and> length r = length self \<and>
       (\<forall>j<length self. r ! j = (if j < i then self ! j else self ! j \<or> rhs ! j))"
proof (induction i self rhs rule: or_loop.induct)
  case (1 i self rhs)
  show ?case
  proof (cases "i < length self")
    case False
    then show ?thesis by (subst or_loop.simps) simp
  next
    case True
    with "1.prems" have ir: "i < length rhs" by simp
    show ?thesis
    proof (cases "\<not> self ! i \<and> rhs ! i")
      case True
      with \<open>i < length self\<close> ir "1.IH"(1) "1.prems"
      obtain r where r: "or_loop (Suc i) (self[i := True]) rhs = Inr r" "length r = length self"
        "\<forall>j<length self. r ! j = (if j < Suc i then self[i := True] ! j else self[i := True] ! j \<or> rhs ! j)"
        by auto
      have "or_loop i self rhs = Inr r"
        using True \<open>i < length self\<close> ir r(1) by (subst or_loop.simps) simp
      moreover have "\<forall>j<length self. r ! j = (if j < i then self ! j else self ! j \<or> rhs ! j)"
        using r(3) True by (auto simp: nth_list_update less_Suc_eq)
      ultimately show ?thesis using r(2) by blast
    next
      case False
      have "\<exists>r. or_loop (Suc i) self rhs = Inr r \<and> length r = length self \<and>
           (\<forall>j<length self. r ! j = (if j < Suc i then self ! j else self ! j \<or> rhs ! j))"
        using False \<open>i < length self\<close> ir "1.IH"(2,3) "1.prems" by (cases "self ! i") auto
      then obtain r where r: "or_loop (Suc i) self rhs = Inr r" "length r = length self"
        "\<forall>j<length self. r ! j = (if j < Suc i then self ! j else self ! j \<or> rhs ! j)"
        by blast
      have "or_loop i self rhs = Inr r"
        using False \<open>i < length self\<close> ir r(1) by (subst or_loop.simps) auto
      moreover have "\<forall>j<length self. r ! j = (if j < i then self ! j else self ! j \<or> rhs ! j)"
        using r(3) False by (auto simp: less_Suc_eq)
      ultimately show ?thesis using r(2) by blast
    qed
  qed
qed

lemma and_loop_spec:
  "length self \<le> length rhs \<Longrightarrow>
   \<exists>r. and_loop i self rhs = Inr r \<and> length r = length self \<and>
       (\<forall>j<length self. r ! j = (if j < i then self ! j else self ! j \<and> rhs ! j))"
proof (induction i self rhs rule: and_loop.induct)
  case (1 i self rhs)
  show ?case
  proof (cases "i < length self")
    case False
    then show ?thesis by (subst and_loop.simps) simp
  next
    case True
    with "1.prems" have ir: "i < length rhs" by simp
    show ?thesis
    proof (cases "self ! i \<and> \<not> rhs ! i")
      case True
      with \<open>i < length self\<close> ir "1.IH"(1) "1.prems"
      obtain r where r: "and_loop (Suc i) (self[i := False]) rhs = Inr r" "length r = length self"
        "\<forall>j<length self. r ! j = (if j < Suc i then self[i := False] ! j else self[i := False] ! j \<and> rhs ! j)"
        by auto
      have "and_loop i self rhs = Inr r"
        using True \<open>i < length self\<close> ir r(1) by (subst and_loop.simps) simp
      moreover have "\<forall>j<length self. r ! j = (if j < i then self ! j else self ! j \<and> rhs ! j)"
        using r(3) True by (auto simp: nth_list_update less_Suc_eq)
      ultimately show ?thesis using r(2) by blast
    next
      case False
      have "\<exists>r. and_loop (Suc i) self rhs = Inr r \<and> length r = length self \<and>
           (\<forall>j<length self. r ! j = (if j < Suc i then self ! j else self ! j \<and> rhs ! j))"
        using False \<open>i < length self\<close> ir "1.IH"(2,3) "1.prems" by (cases "self ! i") auto
      then obtain r where r: "and_loop (Suc i) self rhs = Inr r" "length r = length self"
        "\<forall>j<length self. r ! j = (if j < Suc i then self ! j else self ! j \<and> rhs ! j)"
        by blast
      have "and_loop i self rhs = Inr r"
        using False \<open>i < length self\<close> ir r(1) by (subst and_loop.simps) auto
      moreover have "\<forall>j<length self. r ! j = (if j < i then self ! j else self ! j \<and> rhs ! j)"
        using r(3) False by (auto simp: less_Suc_eq)
      ultimately show ?thesis using r(2) by blast
    qed
  qed
qed

lemma bitsett_or_copy:
  assumes "length t = length row"
  shows "bitsett_or (bitsett_reset t) row = Inr row"
proof -
  from or_loop_spec [of "bitsett_reset t" row 0] assms
  obtain r where r: "or_loop 0 (bitsett_reset t) row = Inr r" "length r = length row"
    "\<forall>j<length row. r ! j = (bitsett_reset t ! j \<or> row ! j)"
    by (auto simp: bitsett_reset_def)
  have "r = row"
    using r(2,3) assms by (intro nth_equalityI) (auto simp: bitsett_reset_def)
  with r(1) show ?thesis by (simp add: bitsett_or_def)
qed

lemma bitsett_and_spec:
  assumes "length self = length rhs"
  shows "\<exists>r. bitsett_and self rhs = Inr r \<and> length r = length self \<and>
             (\<forall>j<length self. r ! j = (self ! j \<and> rhs ! j))"
  using and_loop_spec [of self rhs 0] assms by (auto simp: bitsett_and_def)

subsection \<open>One update of a node's set against one predecessor\<close>

lemma pred_step_result:
  assumes inv: "loop_inv g (doms, t)"
    and node: "node < g_size g" and pred: "pred < g_size g"
  shows "\<exists>d'. pred_step node pred (doms, t, changed)
                 = Inr (doms[node := d'], doms ! node, changed \<or> d' \<noteq> doms ! node) \<and>
              length d' = g_size g \<and>
              (\<forall>i<g_size g. d' ! i = (doms ! node ! i \<and> (doms ! pred ! i \<or> i = node)))"
proof -
  from inv node pred have len: "length doms = g_size g" "length t = g_size g"
    "length (doms ! node) = g_size g" "length (doms ! pred) = g_size g"
    and self: "doms ! node ! node"
    by (auto simp: loop_inv_iff)
  have copy: "bitsett_or (bitsett_reset t) (doms ! node) = Inr (doms ! node)"
    using len by (intro bitsett_or_copy) simp
  from bitsett_and_spec [of "doms ! node" "doms ! pred"] len
  obtain d where d: "bitsett_and (doms ! node) (doms ! pred) = Inr d" "length d = g_size g"
    "\<forall>j<g_size g. d ! j = (doms ! node ! j \<and> doms ! pred ! j)"
    by auto
  let ?d' = "d[node := True]"
  have "pred_step node pred (doms, t, changed)
          = Inr (doms[node := ?d'], doms ! node, changed \<or> ?d' \<noteq> doms ! node)"
    using len node pred copy d(1,2) by (simp add: pred_step_def bitsett_set_def)
  moreover have "length ?d' = g_size g" using d(2) by simp
  moreover have "\<forall>i<g_size g. ?d' ! i = (doms ! node ! i \<and> (doms ! pred ! i \<or> i = node))"
  proof (intro allI impI)
    fix i assume "i < g_size g"
    with d(2,3) self show "?d' ! i = (doms ! node ! i \<and> (doms ! pred ! i \<or> i = node))"
      by (cases "i = node") simp_all
  qed
  ultimately show ?thesis by blast
qed

lemma pred_step_inv:
  assumes inv: "loop_inv g (doms, t)"
    and node: "node < g_size g" "node \<noteq> g_entry g" "g_pred g node \<noteq> []"
    and pred: "pred < g_size g"
    and entry: "g_entry g < g_size g"
  shows "\<exists>doms' t' changed'.
           pred_step node pred (doms, t, changed) = Inr (doms', t', changed') \<and>
           loop_inv g (doms', t') \<and>
           true_bits doms' \<subseteq> true_bits doms \<and>
           (changed \<longrightarrow> changed') \<and>
           (changed' \<longrightarrow> changed \<or> true_bits doms' \<noteq> true_bits doms)"
proof -
  from pred_step_result [OF inv node(1) pred, of changed]
  obtain d' where step: "pred_step node pred (doms, t, changed)
                 = Inr (doms[node := d'], doms ! node, changed \<or> d' \<noteq> doms ! node)"
    and ld: "length d' = g_size g"
    and bits: "\<forall>i<g_size g. d' ! i = (doms ! node ! i \<and> (doms ! pred ! i \<or> i = node))"
    by blast
  from inv have len: "length doms = g_size g" "length t = g_size g"
    and rows: "\<forall>n<g_size g. length (doms ! n) = g_size g \<and> doms ! n ! n \<and> doms ! n ! g_entry g"
    and ones: "\<forall>n<g_size g. n \<noteq> g_entry g \<and> g_pred g n = [] \<longrightarrow> doms ! n = replicate (g_size g) True"
    by (auto simp: loop_inv_iff)
  have inv': "loop_inv g (doms[node := d'], doms ! node)"
    unfolding loop_inv_iff using len rows ones ld bits node pred entry
    by (auto simp: nth_list_update)
  have sub: "true_bits (doms[node := d']) \<subseteq> true_bits doms"
    unfolding true_bits_def using len rows ld bits node
    by (auto simp: nth_list_update split: if_splits)
  have strict: "true_bits (doms[node := d']) \<noteq> true_bits doms" if ne: "d' \<noteq> doms ! node"
  proof -
    have "\<exists>i<g_size g. d' ! i \<noteq> doms ! node ! i"
    proof (rule ccontr)
      assume "\<not> (\<exists>i<g_size g. d' ! i \<noteq> doms ! node ! i)"
      with ld rows node have "d' = doms ! node"
        by (intro nth_equalityI) simp_all
      with ne show False by simp
    qed
    then obtain i where i: "i < g_size g" "d' ! i \<noteq> doms ! node ! i" by blast
    with bits have old: "doms ! node ! i" and new: "\<not> d' ! i" by auto
    from old i(1) node len rows have "(node, i) \<in> true_bits doms"
      by (simp add: true_bits_def)
    moreover from new node len have "(node, i) \<notin> true_bits (doms[node := d'])"
      by (simp add: true_bits_def)
    ultimately show ?thesis by blast
  qed
  show ?thesis using step inv' sub strict by auto
qed

subsection \<open>One pass of the fixed-point loop\<close>

lemma wf_graphD:
  assumes "wf_graph g"
  shows "g_entry g < g_size g"
    and "\<And>n. n \<in> set (g_nodes g) \<Longrightarrow> n < g_size g"
    and "\<And>n. n < g_size g \<Longrightarrow> n \<in> set (g_nodes g)"
    and "\<And>n p. n < g_size g \<Longrightarrow> p \<in> set (g_pred g n) \<Longrightarrow> p < g_size g"
    and "\<And>n s. n < g_size g \<Longrightarrow> s \<in> set (g_succ g n) \<Longrightarrow> s < g_size g"
proof -
  from assms have a: "\<forall>n\<in>set (g_nodes g). n < g_size g"
    and b: "\<forall>n\<in>set [0..<g_size g]. n \<in> set (g_nodes g)"
    and c: "\<forall>n\<in>set [0..<g_size g]. \<forall>p\<in>set (g_pred g n). p < g_size g"
    and d: "\<forall>n\<in>set [0..<g_size g]. \<forall>s\<in>set (g_succ g n). s < g_size g"
    unfolding wf_graph_def list_all_iff by blast+
  from assms show "g_entry g < g_size g" unfolding wf_graph_def by blast
  show "\<And>n. n \<in> set (g_nodes g) \<Longrightarrow> n < g_size g" using a by blast
  show "\<And>n. n < g_size g \<Longrightarrow> n \<in> set (g_nodes g)" using b by simp
  show "\<And>n p. n < g_size g \<Longrightarrow> p \<in> set (g_pred g n) \<Longrightarrow> p < g_size g" using c by simp
  show "\<And>n s. n < g_size g \<Longrightarrow> s \<in> set (g_succ g n) \<Longrightarrow> s < g_size g" using d by simp
qed

lemma preds_loop_inv:
  assumes "loop_inv g (doms, t)"
    and "node < g_size g" "node \<noteq> g_entry g" "ps \<noteq> [] \<longrightarrow> g_pred g node \<noteq> []"
    and "\<forall>p\<in>set ps. p < g_size g"
    and "g_entry g < g_size g"
  shows "\<exists>doms' t' changed'.
           preds_loop node ps (doms, t, changed) = Inr (doms', t', changed') \<and>
           loop_inv g (doms', t') \<and>
           true_bits doms' \<subseteq> true_bits doms \<and>
           (changed \<longrightarrow> changed') \<and>
           (changed' \<longrightarrow> changed \<or> true_bits doms' \<noteq> true_bits doms)"
  using assms
proof (induction ps arbitrary: doms t changed)
  case Nil
  then show ?case by simp
next
  case (Cons p ps)
  from Cons.prems have np: "g_pred g node \<noteq> []" and p: "p < g_size g" by auto
  from pred_step_inv [OF Cons.prems(1,2,3) np p Cons.prems(6), of changed]
  obtain d1 t1 c1 where s1: "pred_step node p (doms, t, changed) = Inr (d1, t1, c1)"
    and i1: "loop_inv g (d1, t1)" and b1: "true_bits d1 \<subseteq> true_bits doms"
    and c1: "changed \<longrightarrow> c1" "c1 \<longrightarrow> changed \<or> true_bits d1 \<noteq> true_bits doms"
    by blast
  have a: "ps \<noteq> [] \<longrightarrow> g_pred g node \<noteq> []" using np by simp
  have b: "\<forall>p\<in>set ps. p < g_size g" using Cons.prems(5) by simp
  from Cons.IH [OF i1 Cons.prems(2,3) a b Cons.prems(6), of c1]
  obtain d2 t2 c2 where s2: "preds_loop node ps (d1, t1, c1) = Inr (d2, t2, c2)"
    and i2: "loop_inv g (d2, t2)" and b2: "true_bits d2 \<subseteq> true_bits d1"
    and c2: "c1 \<longrightarrow> c2" "c2 \<longrightarrow> c1 \<or> true_bits d2 \<noteq> true_bits d1"
    by blast
  have "preds_loop node (p # ps) (doms, t, changed) = Inr (d2, t2, c2)"
    using s1 s2 by simp
  moreover have "true_bits d2 \<subseteq> true_bits doms" using b1 b2 by blast
  moreover have "changed \<longrightarrow> c2" using c1 c2 by blast
  moreover have "c2 \<longrightarrow> changed \<or> true_bits d2 \<noteq> true_bits doms"
    using c1 c2 b1 b2 by blast
  ultimately show ?case using i2 by blast
qed

lemma nodes_loop_inv:
  assumes "wf_graph g" and "loop_inv g (doms, t)" and "\<forall>n\<in>set ns. n < g_size g"
  shows "\<exists>doms' t' changed'.
           nodes_loop g ns (doms, t, changed) = Inr (doms', t', changed') \<and>
           loop_inv g (doms', t') \<and>
           true_bits doms' \<subseteq> true_bits doms \<and>
           (changed \<longrightarrow> changed') \<and>
           (changed' \<longrightarrow> changed \<or> true_bits doms' \<noteq> true_bits doms)"
  using assms(2,3)
proof (induction ns arbitrary: doms t changed)
  case Nil
  then show ?case by simp
next
  case (Cons n ns)
  show ?case
  proof (cases "n = g_entry g")
    case True
    have "\<forall>n\<in>set ns. n < g_size g" using Cons.prems(2) by simp
    from Cons.IH [OF Cons.prems(1) this, of changed] True show ?thesis by simp
  next
    case False
    from Cons.prems(2) have n: "n < g_size g" by simp
    have ps: "\<forall>p\<in>set (g_pred g n). p < g_size g"
      using wf_graphD(4) [OF assms(1) n] by blast
    from preds_loop_inv [OF Cons.prems(1) n False _ ps wf_graphD(1) [OF assms(1)], of changed]
    obtain d1 t1 c1 where s1: "preds_loop n (g_pred g n) (doms, t, changed) = Inr (d1, t1, c1)"
      and i1: "loop_inv g (d1, t1)" and b1: "true_bits d1 \<subseteq> true_bits doms"
      and c1: "changed \<longrightarrow> c1" "c1 \<longrightarrow> changed \<or> true_bits d1 \<noteq> true_bits doms"
      by blast
    have "\<forall>n\<in>set ns. n < g_size g" using Cons.prems(2) by simp
    from Cons.IH [OF i1 this, of c1]
    obtain d2 t2 c2 where s2: "nodes_loop g ns (d1, t1, c1) = Inr (d2, t2, c2)"
      and i2: "loop_inv g (d2, t2)" and b2: "true_bits d2 \<subseteq> true_bits d1"
      and c2: "c1 \<longrightarrow> c2" "c2 \<longrightarrow> c1 \<or> true_bits d2 \<noteq> true_bits d1"
      by blast
    have "nodes_loop g (n # ns) (doms, t, changed) = Inr (d2, t2, c2)"
      using False s1 s2 by simp
    moreover have "true_bits d2 \<subseteq> true_bits doms" using b1 b2 by blast
    moreover have "changed \<longrightarrow> c2" using c1 c2 by blast
    moreover have "c2 \<longrightarrow> changed \<or> true_bits d2 \<noteq> true_bits doms"
      using c1 c2 b1 b2 by blast
    ultimately show ?thesis using i2 by blast
  qed
qed

lemma pass_inv:
  assumes "wf_graph g" and "loop_inv g st"
  shows "\<exists>doms' t' changed'.
           nodes_loop g (g_nodes g) (fst st, snd st, False) = Inr (doms', t', changed') \<and>
           loop_inv g (doms', t') \<and>
           true_bits doms' \<subseteq> true_bits (fst st) \<and>
           (changed' \<longrightarrow> true_bits doms' \<noteq> true_bits (fst st))"
proof -
  have "\<forall>n\<in>set (g_nodes g). n < g_size g"
    using wf_graphD(2) [OF assms(1)] by blast
  moreover have "loop_inv g (fst st, snd st)" using assms(2) by simp
  ultimately show ?thesis
    using nodes_loop_inv [OF assms(1), of "fst st" "snd st" "g_nodes g" False] by simp
qed

subsection \<open>The loop exits\<close>

lemma finite_true_bits: "finite (true_bits doms)"
proof -
  have "true_bits doms \<subseteq> (\<Union>n\<in>{..<length doms}. {n} \<times> {..<length (doms ! n)})"
    by (auto simp: true_bits_def)
  moreover have "finite (\<Union>n\<in>{..<length doms}. {n} \<times> {..<length (doms ! n)})"
    by simp
  ultimately show ?thesis by (rule finite_subset)
qed

lemma do_while_total:
  assumes "wf_graph g" and "loop_inv g st"
  shows "\<exists>st'. do_while g st = Some (Inr st') \<and> loop_inv g st' \<and>
               true_bits (fst st') \<subseteq> true_bits (fst st)"
  using assms(2)
proof (induction "card (true_bits (fst st))" arbitrary: st rule: less_induct)
  case less
  from pass_inv [OF assms(1) less.prems]
  obtain doms' t' changed' where
    pass: "nodes_loop g (g_nodes g) (fst st, snd st, False) = Inr (doms', t', changed')"
    and inv': "loop_inv g (doms', t')"
    and sub: "true_bits doms' \<subseteq> true_bits (fst st)"
    and ch: "changed' \<longrightarrow> true_bits doms' \<noteq> true_bits (fst st)"
    by blast
  show ?case
  proof (cases changed')
    case False
    with pass have "do_while g st = Some (Inr (doms', t'))"
      by (subst do_while.simps) simp
    with inv' sub show ?thesis by simp
  next
    case True
    with sub ch have "true_bits doms' \<subset> true_bits (fst st)" by blast
    then have "card (true_bits (fst (doms', t'))) < card (true_bits (fst st))"
      by (simp add: psubset_card_mono finite_true_bits)
    from less.hyps [OF this inv']
    obtain st' where r: "do_while g (doms', t') = Some (Inr st')" "loop_inv g st'"
      "true_bits (fst st') \<subseteq> true_bits doms'"
      by auto
    from pass True r(1) have "do_while g st = Some (Inr st')"
      by (subst do_while.simps) simp
    with r(2,3) sub show ?thesis by blast
  qed
qed

subsection \<open>The state before the loop\<close>

lemma length_resize: "length (resize n dflt xs) = n"
  by (simp add: resize_def)

lemma init_loop_result:
  assumes "\<forall>n\<in>set ns. n < length doms"
  shows "\<exists>doms'. init_loop N ns doms = Inr doms' \<and> length doms' = length doms \<and>
           (\<forall>n<length doms. doms' ! n = (if n \<in> set ns then replicate N True else doms ! n))"
  using assms
proof (induction ns arbitrary: doms)
  case Nil
  then show ?case by simp
next
  case (Cons m ns)
  let ?doms1 = "doms[m := bitsett_set_all (resize N False (doms ! m))]"
  from Cons.prems have m: "m < length doms" and "\<forall>n\<in>set ns. n < length ?doms1" by simp_all
  from Cons.IH [OF this(2)]
  obtain doms' where r: "init_loop N ns ?doms1 = Inr doms'" "length doms' = length doms"
    "\<forall>n<length doms. doms' ! n = (if n \<in> set ns then replicate N True else ?doms1 ! n)"
    by auto
  have "init_loop N (m # ns) doms = Inr doms'" using m r(1) by simp
  moreover have "\<forall>n<length doms. doms' ! n = (if n \<in> set (m # ns) then replicate N True else doms ! n)"
    using r(3) m by (auto simp: nth_list_update bitsett_set_all_def length_resize)
  ultimately show ?case using r(2) by blast
qed

lemma init_state_inv:
  assumes "wf_graph g"
  shows "\<exists>st. init_state g = Inr st \<and> loop_inv g st"
proof -
  let ?N = "g_size g" and ?e = "g_entry g"
  have e: "?e < ?N" by (rule wf_graphD(1) [OF assms])
  have "\<forall>n\<in>set (g_nodes g). n < length (resize ?N [] ([] :: bitsett list))"
    using wf_graphD(2) [OF assms] by (simp add: length_resize)
  from init_loop_result [OF this, of ?N]
  obtain doms where d: "init_loop ?N (g_nodes g) (resize ?N [] []) = Inr doms" "length doms = ?N"
    "\<forall>n<?N. doms ! n = replicate ?N True"
    using wf_graphD(3) [OF assms] by (auto simp: length_resize)
  let ?row = "(replicate ?N False)[?e := True]"
  have ie: "init_entry ?e doms = Inr (doms[?e := ?row])"
    using e d(2,3) by (simp add: init_entry_def bitsett_set_def bitsett_reset_def)
  have st: "init_state g = Inr (doms[?e := ?row], replicate ?N False)"
    using d(1) ie by (simp add: init_state_def Let_def bitsett_reset_def length_resize)
  have "loop_inv g (doms[?e := ?row], replicate ?N False)"
    unfolding loop_inv_iff using e d(2,3) by (auto simp: nth_list_update)
  with st show ?thesis by blast
qed

lemma DominatorInfo_total:
  assumes "wf_graph g"
  shows "\<exists>d t. DominatorInfo g = Some (Inr d) \<and> loop_inv g (d, t)"
proof -
  from init_state_inv [OF assms] obtain st where st: "init_state g = Inr st" "loop_inv g st"
    by blast
  from do_while_total [OF assms st(2)] obtain st' where
    r: "do_while g st = Some (Inr st')" "loop_inv g st'" by blast
  obtain d t where [simp]: "st' = (d, t)" by (cases st')
  from st(1) r show ?thesis by (auto simp: DominatorInfo_def)
qed

subsection \<open>The dominance table\<close>

lemma reachable_valid:
  assumes "wf_graph g" and "reachable g n"
  shows "n < g_size g"
  using assms(2)
proof (induction rule: reachable.induct)
  case entry
  show ?case by (rule wf_graphD(1) [OF assms(1)])
next
  case (succ n m)
  then show ?case using wf_graphD(5) [OF assms(1)] by blast
qed

text \<open>
  C4: for a graph within the contract of the graph view, construction returns a table in
  which every valid node dominates itself.
\<close>

theorem self_dominance:
  assumes "wf_graph g" and "n < g_size g"
  shows "\<exists>d. DominatorInfo g = Some (Inr d) \<and> dominates_node d n n = Inr True"
proof -
  from DominatorInfo_total [OF assms(1)] obtain d t where
    d: "DominatorInfo g = Some (Inr d)" and inv: "loop_inv g (d, t)" by blast
  from inv assms(2) have "dominates_node d n n = Inr True"
    by (simp add: loop_inv_iff dominates_node_def bitsett_test_def)
  with d show ?thesis by blast
qed

theorem self_dominance_witness:
  "wf_graph chain_graph \<and> 2 < g_size chain_graph \<and>
   (\<exists>d. DominatorInfo chain_graph = Some (Inr d) \<and> dominates_node d 2 2 = Inr True)"
proof -
  have w: "wf_graph chain_graph" by code_simp
  have n: "2 < g_size chain_graph" by (simp add: chain_graph_def)
  from self_dominance [OF w n] w n show ?thesis by blast
qed

text \<open>
  C5: for a graph within the contract of the graph view, construction returns a table in
  which the entry node dominates every node reachable from it along successor edges.
\<close>

theorem entry_dominates_reachable:
  assumes "wf_graph g" and "reachable g n"
  shows "\<exists>d. DominatorInfo g = Some (Inr d) \<and> dominates_node d (g_entry g) n = Inr True"
proof -
  from DominatorInfo_total [OF assms(1)] obtain d t where
    d: "DominatorInfo g = Some (Inr d)" and inv: "loop_inv g (d, t)" by blast
  have n: "n < g_size g" by (rule reachable_valid [OF assms])
  have e: "g_entry g < g_size g" by (rule wf_graphD(1) [OF assms(1)])
  from inv n e have "dominates_node d (g_entry g) n = Inr True"
    by (simp add: loop_inv_iff dominates_node_def bitsett_test_def)
  with d show ?thesis by blast
qed

theorem entry_dominates_reachable_witness:
  "wf_graph diamond_graph \<and> reachable diamond_graph 3 \<and>
   (\<exists>d. DominatorInfo diamond_graph = Some (Inr d) \<and>
        dominates_node d (g_entry diamond_graph) 3 = Inr True)"
proof -
  have w: "wf_graph diamond_graph" by code_simp
  have "reachable diamond_graph (g_entry diamond_graph)" by (rule reachable.entry)
  then have "reachable diamond_graph 0" by (simp add: diamond_graph_def)
  then have "reachable diamond_graph 1"
    by (rule reachable.succ) (simp add: diamond_graph_def)
  then have r: "reachable diamond_graph 3"
    by (rule reachable.succ) (simp add: diamond_graph_def)
  from entry_dominates_reachable [OF w r] w r show ?thesis by blast
qed

text \<open>
  C7: in a graph within the contract of the graph view, a node other than the entry that
  has no predecessors has the all-ones set before the loop and in the finished table.
\<close>

theorem orphan_keeps_full_set:
  assumes "wf_graph g" and "n < g_size g" and "n \<noteq> g_entry g" and "g_pred g n = []"
  shows "\<exists>st d. init_state g = Inr st \<and> fst st ! n = replicate (g_size g) True \<and>
               DominatorInfo g = Some (Inr d) \<and> d ! n = replicate (g_size g) True"
proof -
  from init_state_inv [OF assms(1)] obtain st where
    st: "init_state g = Inr st" and inv0: "loop_inv g st" by blast
  from DominatorInfo_total [OF assms(1)] obtain d t where
    d: "DominatorInfo g = Some (Inr d)" and inv: "loop_inv g (d, t)" by blast
  from inv0 assms(2,3,4) have "fst st ! n = replicate (g_size g) True"
    by (simp add: loop_inv_iff)
  moreover from inv assms(2,3,4) have "d ! n = replicate (g_size g) True"
    by (simp add: loop_inv_iff)
  ultimately show ?thesis using st d by blast
qed

theorem orphan_keeps_full_set_witness:
  "wf_graph orphan_graph \<and> 2 < g_size orphan_graph \<and> 2 \<noteq> g_entry orphan_graph \<and>
   g_pred orphan_graph 2 = [] \<and>
   (\<exists>st d. init_state orphan_graph = Inr st \<and> fst st ! 2 = replicate (g_size orphan_graph) True \<and>
      DominatorInfo orphan_graph = Some (Inr d) \<and> d ! 2 = replicate (g_size orphan_graph) True)"
proof -
  have w: "wf_graph orphan_graph" by code_simp
  have h: "2 < g_size orphan_graph" "2 \<noteq> g_entry orphan_graph" "g_pred orphan_graph 2 = []"
    by (simp_all add: orphan_graph_def)
  from orphan_keeps_full_set [OF w h] w h show ?thesis by blast
qed

text \<open>
  C10: for a graph within the contract of the graph view, the sets and the scratch set
  have \<open>g_size\<close> bits before the loop, and construction ends without an error, so no
  checked access left its range and no unchecked one left \<^verbatim>\<open>doms\<close>; the table has one set
  per node, each of \<open>g_size\<close> bits, and the query on two valid ids returns a value.
\<close>

theorem accesses_in_bounds:
  assumes "wf_graph g"
  shows "\<exists>doms0 t0 d.
           init_state g = Inr (doms0, t0) \<and> length doms0 = g_size g \<and>
           (\<forall>row\<in>set doms0. length row = g_size g) \<and> length t0 = g_size g \<and>
           DominatorInfo g = Some (Inr d) \<and> length d = g_size g \<and>
           (\<forall>row\<in>set d. length row = g_size g) \<and>
           (\<forall>a<g_size g. \<forall>b<g_size g. dominates_node d a b = Inr (d ! b ! a))"
proof -
  have sized: "\<forall>row\<in>set x. length row = g_size g"
    if "loop_inv g (x, y)" for x :: dominfo and y
    using that by (auto simp: loop_inv_iff in_set_conv_nth)
  from init_state_inv [OF assms] obtain doms0 t0 where
    st: "init_state g = Inr (doms0, t0)" and inv0: "loop_inv g (doms0, t0)" by auto
  from inv0 have len0: "length doms0 = g_size g" "length t0 = g_size g"
    by (simp_all add: loop_inv_iff)
  from DominatorInfo_total [OF assms(1)] obtain d t where
    d: "DominatorInfo g = Some (Inr d)" and inv: "loop_inv g (d, t)" by blast
  from inv have len: "length d = g_size g" and rows: "\<forall>n<g_size g. length (d ! n) = g_size g"
    by (simp_all add: loop_inv_iff)
  have "\<forall>a<g_size g. \<forall>b<g_size g. dominates_node d a b = Inr (d ! b ! a)"
    using len rows by (simp add: dominates_node_def bitsett_test_def)
  with st len0 sized [OF inv0] d len sized [OF inv] show ?thesis by blast
qed

theorem accesses_in_bounds_witness:
  "wf_graph diamond_graph \<and>
   (\<exists>doms0 t0 d.
      init_state diamond_graph = Inr (doms0, t0) \<and> length doms0 = g_size diamond_graph \<and>
      (\<forall>row\<in>set doms0. length row = g_size diamond_graph) \<and>
      length t0 = g_size diamond_graph \<and>
      DominatorInfo diamond_graph = Some (Inr d) \<and> length d = g_size diamond_graph \<and>
      (\<forall>row\<in>set d. length row = g_size diamond_graph) \<and>
      (\<forall>a<g_size diamond_graph. \<forall>b<g_size diamond_graph.
         dominates_node d a b = Inr (d ! b ! a)))"
proof -
  have w: "wf_graph diamond_graph" by code_simp
  from accesses_in_bounds [OF w] w show ?thesis by blast
qed

text \<open>
  C6: for a graph within the contract of the graph view, the state before the loop
  satisfies the loop invariant (sets of \<open>g_size\<close> bits that hold the node's own bit); from
  a state with the invariant, one update against a predecessor sets no bit that was not
  set, one pass keeps the invariant and sets no bit in any set, and a pass that raises
  \<^verbatim>\<open>changed\<close> clears at least one bit of the finitely many; the loop started in such a
  state exits, and so construction returns a table.
\<close>

theorem dominator_loop_terminates:
  assumes "wf_graph g"
  shows "(\<exists>st. init_state g = Inr st \<and> loop_inv g st) \<and>
         (\<forall>doms t. loop_inv g (doms, t) \<longrightarrow>
            (\<forall>node<g_size g. \<forall>pred<g_size g. \<forall>changed.
               \<exists>d'. pred_step node pred (doms, t, changed)
                      = Inr (doms[node := d'], doms ! node, changed \<or> d' \<noteq> doms ! node) \<and>
                    (\<forall>i<g_size g. d' ! i \<longrightarrow> doms ! node ! i)) \<and>
            (\<exists>doms' t' changed'.
               nodes_loop g (g_nodes g) (doms, t, False) = Inr (doms', t', changed') \<and>
               loop_inv g (doms', t') \<and>
               (\<forall>n<g_size g. \<forall>i<g_size g. doms' ! n ! i \<longrightarrow> doms ! n ! i) \<and>
               (\<forall>n<g_size g. doms' ! n ! n) \<and>
               finite (true_bits doms) \<and>
               (changed' \<longrightarrow> true_bits doms' \<subset> true_bits doms)) \<and>
            (\<exists>st'. do_while g (doms, t) = Some (Inr st') \<and> loop_inv g st')) \<and>
         (\<exists>d. DominatorInfo g = Some (Inr d))"
proof (intro conjI allI impI)
  show "\<exists>st. init_state g = Inr st \<and> loop_inv g st"
    by (rule init_state_inv [OF assms])
next
  show "\<exists>d. DominatorInfo g = Some (Inr d)"
    using DominatorInfo_total [OF assms] by blast
next
  fix doms t assume inv: "loop_inv g (doms, t)"
  show "\<exists>st'. do_while g (doms, t) = Some (Inr st') \<and> loop_inv g st'"
    using do_while_total [OF assms inv] by blast
next
  fix doms t node pred changed
  assume inv: "loop_inv g (doms, t)" and node: "node < g_size g" and pred: "pred < g_size g"
  from pred_step_result [OF inv node pred, of changed]
  obtain d' where "pred_step node pred (doms, t, changed)
                 = Inr (doms[node := d'], doms ! node, changed \<or> d' \<noteq> doms ! node)"
    and "\<forall>i<g_size g. d' ! i = (doms ! node ! i \<and> (doms ! pred ! i \<or> i = node))"
    by blast
  then show "\<exists>d'. pred_step node pred (doms, t, changed)
                      = Inr (doms[node := d'], doms ! node, changed \<or> d' \<noteq> doms ! node) \<and>
                    (\<forall>i<g_size g. d' ! i \<longrightarrow> doms ! node ! i)"
    by blast
next
  fix doms t assume inv: "loop_inv g (doms, t)"
  from pass_inv [OF assms inv]
  obtain doms' t' changed' where
    pass: "nodes_loop g (g_nodes g) (doms, t, False) = Inr (doms', t', changed')"
    and inv': "loop_inv g (doms', t')"
    and sub: "true_bits doms' \<subseteq> true_bits doms"
    and ch: "changed' \<longrightarrow> true_bits doms' \<noteq> true_bits doms"
    by auto
  have shrink: "\<forall>n<g_size g. \<forall>i<g_size g. doms' ! n ! i \<longrightarrow> doms ! n ! i"
  proof (intro allI impI)
    fix n i assume "n < g_size g" "i < g_size g" "doms' ! n ! i"
    with inv' have "(n, i) \<in> true_bits doms'"
      by (simp add: true_bits_def loop_inv_iff)
    with sub have "(n, i) \<in> true_bits doms" by blast
    then show "doms ! n ! i" by (simp add: true_bits_def)
  qed
  have own: "\<forall>n<g_size g. doms' ! n ! n"
    using inv' by (simp add: loop_inv_iff)
  have strict: "changed' \<longrightarrow> true_bits doms' \<subset> true_bits doms"
    using sub ch by blast
  show "\<exists>doms' t' changed'.
               nodes_loop g (g_nodes g) (doms, t, False) = Inr (doms', t', changed') \<and>
               loop_inv g (doms', t') \<and>
               (\<forall>n<g_size g. \<forall>i<g_size g. doms' ! n ! i \<longrightarrow> doms ! n ! i) \<and>
               (\<forall>n<g_size g. doms' ! n ! n) \<and>
               finite (true_bits doms) \<and>
               (changed' \<longrightarrow> true_bits doms' \<subset> true_bits doms)"
    using pass inv' shrink own strict finite_true_bits [of doms] by blast
qed

theorem dominator_loop_terminates_witness:
  "wf_graph chain_graph \<and> init_state chain_graph = Inr chain_init \<and>
   loop_inv chain_graph chain_init \<and>
   (\<exists>d'. pred_step 2 1 (fst chain_init, snd chain_init, False)
           = Inr ((fst chain_init)[2 := d'], fst chain_init ! 2, d' \<noteq> fst chain_init ! 2) \<and>
         (\<forall>i<g_size chain_graph. d' ! i \<longrightarrow> fst chain_init ! 2 ! i)) \<and>
   (\<exists>doms' t'.
      nodes_loop chain_graph (g_nodes chain_graph) (fst chain_init, snd chain_init, False)
        = Inr (doms', t', True) \<and>
      loop_inv chain_graph (doms', t') \<and>
      (\<forall>n<g_size chain_graph. \<forall>i<g_size chain_graph. doms' ! n ! i \<longrightarrow> fst chain_init ! n ! i) \<and>
      true_bits doms' \<subset> true_bits (fst chain_init)) \<and>
   (\<exists>st'. do_while chain_graph chain_init = Some (Inr st')) \<and>
   (\<exists>d. DominatorInfo chain_graph = Some (Inr d))"
proof -
  have w: "wf_graph chain_graph" by code_simp
  have i: "init_state chain_graph = Inr chain_init" by code_simp
  have inv: "loop_inv chain_graph (fst chain_init, snd chain_init)" by code_simp
  have n: "(2::nat) < g_size chain_graph" "(1::nat) < g_size chain_graph"
    by (simp_all add: chain_graph_def)
  have p: "nodes_loop chain_graph (g_nodes chain_graph) (fst chain_init, snd chain_init, False)
             = Inr (chain_doms, [True, True, True, True], True)"
    by code_simp
  note inst = dominator_loop_terminates [OF w]
  from inst have all: "\<forall>doms t. loop_inv chain_graph (doms, t) \<longrightarrow>
            (\<forall>node<g_size chain_graph. \<forall>pred<g_size chain_graph. \<forall>changed.
               \<exists>d'. pred_step node pred (doms, t, changed)
                      = Inr (doms[node := d'], doms ! node, changed \<or> d' \<noteq> doms ! node) \<and>
                    (\<forall>i<g_size chain_graph. d' ! i \<longrightarrow> doms ! node ! i)) \<and>
            (\<exists>doms' t' changed'.
               nodes_loop chain_graph (g_nodes chain_graph) (doms, t, False) = Inr (doms', t', changed') \<and>
               loop_inv chain_graph (doms', t') \<and>
               (\<forall>n<g_size chain_graph. \<forall>i<g_size chain_graph. doms' ! n ! i \<longrightarrow> doms ! n ! i) \<and>
               (\<forall>n<g_size chain_graph. doms' ! n ! n) \<and>
               finite (true_bits doms) \<and>
               (changed' \<longrightarrow> true_bits doms' \<subset> true_bits doms)) \<and>
            (\<exists>st'. do_while chain_graph (doms, t) = Some (Inr st') \<and> loop_inv chain_graph st')"
    and tot: "\<exists>d. DominatorInfo chain_graph = Some (Inr d)"
    by blast+
  from all inv have
    a: "\<forall>node<g_size chain_graph. \<forall>pred<g_size chain_graph. \<forall>changed.
               \<exists>d'. pred_step node pred (fst chain_init, snd chain_init, changed)
                      = Inr ((fst chain_init)[node := d'], fst chain_init ! node,
                             changed \<or> d' \<noteq> fst chain_init ! node) \<and>
                    (\<forall>i<g_size chain_graph. d' ! i \<longrightarrow> fst chain_init ! node ! i)"
    and b: "\<exists>doms' t' changed'.
               nodes_loop chain_graph (g_nodes chain_graph) (fst chain_init, snd chain_init, False)
                 = Inr (doms', t', changed') \<and>
               loop_inv chain_graph (doms', t') \<and>
               (\<forall>n<g_size chain_graph. \<forall>i<g_size chain_graph.
                  doms' ! n ! i \<longrightarrow> fst chain_init ! n ! i) \<and>
               (\<forall>n<g_size chain_graph. doms' ! n ! n) \<and>
               finite (true_bits (fst chain_init)) \<and>
               (changed' \<longrightarrow> true_bits doms' \<subset> true_bits (fst chain_init))"
    and c: "\<exists>st'. do_while chain_graph (fst chain_init, snd chain_init) = Some (Inr st') \<and>
                  loop_inv chain_graph st'"
    by blast+
  from a n have "\<exists>d'. pred_step 2 1 (fst chain_init, snd chain_init, False)
           = Inr ((fst chain_init)[2 := d'], fst chain_init ! 2,
                  False \<or> d' \<noteq> fst chain_init ! 2) \<and>
         (\<forall>i<g_size chain_graph. d' ! i \<longrightarrow> fst chain_init ! 2 ! i)"
    by blast
  then have a': "\<exists>d'. pred_step 2 1 (fst chain_init, snd chain_init, False)
           = Inr ((fst chain_init)[2 := d'], fst chain_init ! 2, d' \<noteq> fst chain_init ! 2) \<and>
         (\<forall>i<g_size chain_graph. d' ! i \<longrightarrow> fst chain_init ! 2 ! i)"
    by simp
  from b p have b': "\<exists>doms' t'.
      nodes_loop chain_graph (g_nodes chain_graph) (fst chain_init, snd chain_init, False)
        = Inr (doms', t', True) \<and>
      loop_inv chain_graph (doms', t') \<and>
      (\<forall>n<g_size chain_graph. \<forall>i<g_size chain_graph. doms' ! n ! i \<longrightarrow> fst chain_init ! n ! i) \<and>
      true_bits doms' \<subset> true_bits (fst chain_init)"
    by auto
  from c have c': "\<exists>st'. do_while chain_graph chain_init = Some (Inr st')" by auto
  from w i inv a' b' c' tot show ?thesis by simp
qed

subsection \<open>The traversal: what a returning call has added\<close>

lemma region_of_dominated:
  "r \<in> region_of E d is_end s \<Longrightarrow> r = s \<or> dominates_node d s r = Inr True"
  by (induction rule: region_of.induct) simp_all

lemma region_of_not_end:
  "r \<in> region_of E d is_end s \<Longrightarrow> \<not> is_end r"
  by (induction rule: region_of.induct) simp_all

text \<open>Members are only added, and every added node lies in the closure.\<close>

lemma add_nodes_sound:
  "add_nodes fuel g d is_end sel startNode node = Some (Inr sel') \<Longrightarrow>
     set (fst sel) \<subseteq> set (fst sel') \<and>
     ((\<not> is_end node \<longrightarrow> node \<in> region_of (\<lambda>u. set (g_succ g u)) d is_end startNode) \<and>
      set (fst sel) \<subseteq> region_of (\<lambda>u. set (g_succ g u)) d is_end startNode \<longrightarrow>
      set (fst sel') \<subseteq> region_of (\<lambda>u. set (g_succ g u)) d is_end startNode)"
  and succ_loop_sound:
  "succ_loop fuel g d is_end sel startNode ss = Some (Inr sel') \<Longrightarrow>
     set (fst sel) \<subseteq> set (fst sel') \<and>
     ((\<exists>u\<in>region_of (\<lambda>u. set (g_succ g u)) d is_end startNode. set ss \<subseteq> set (g_succ g u)) \<and>
      set (fst sel) \<subseteq> region_of (\<lambda>u. set (g_succ g u)) d is_end startNode \<longrightarrow>
      set (fst sel') \<subseteq> region_of (\<lambda>u. set (g_succ g u)) d is_end startNode)"
proof (induction fuel g d is_end sel startNode node and fuel g d is_end sel startNode ss
       arbitrary: sel' and sel' rule: add_nodes_succ_loop.induct)
  case (1 g d is_end sel startNode node)
  then show ?case by simp
next
  case (2 fuel g d is_end sel startNode node)
  let ?R = "region_of (\<lambda>u. set (g_succ g u)) d is_end startNode"
  show ?case
  proof (cases "is_end node")
    case True
    with "2.prems" have "sel' = (fst sel, snd sel @ [node])" by simp
    then show ?thesis by simp
  next
    case False
    with "2.prems" have run:
      "succ_loop fuel g d is_end (fst sel @ [node], snd sel @ [node]) startNode (g_succ g node)
         = Some (Inr sel')"
      by simp
    from "2.IH" [OF False run]
    have sub: "set (fst sel @ [node]) \<subseteq> set (fst sel')"
      and reg: "(\<exists>u\<in>?R. set (g_succ g node) \<subseteq> set (g_succ g u)) \<and>
                set (fst sel @ [node]) \<subseteq> ?R \<longrightarrow> set (fst sel') \<subseteq> ?R"
      by simp_all
    have "set (fst sel) \<subseteq> set (fst sel')" using sub by simp
    moreover have "set (fst sel') \<subseteq> ?R" if "node \<in> ?R" "set (fst sel) \<subseteq> ?R"
    proof -
      from that have "\<exists>u\<in>?R. set (g_succ g node) \<subseteq> set (g_succ g u)" by blast
      moreover from that have "set (fst sel @ [node]) \<subseteq> ?R" by simp
      ultimately show ?thesis using reg by blast
    qed
    ultimately show ?thesis using False by blast
  qed
next
  case (3 fuel g d is_end sel startNode)
  then show ?case by simp
next
  case (4 fuel g d is_end sel startNode succ rest)
  let ?R = "region_of (\<lambda>u. set (g_succ g u)) d is_end startNode"
  show ?case
  proof (cases "succ \<in> set (fst sel)")
    case True
    with "4.prems" have "succ_loop fuel g d is_end sel startNode rest = Some (Inr sel')"
      by simp
    from "4.IH"(4) [OF _ this] True show ?thesis by auto
  next
    case notin: False
    from "4.prems" notin obtain b where dom: "dominates_node d startNode succ = Inr b"
      by (cases "dominates_node d startNode succ") simp_all
    show ?thesis
    proof (cases b)
      case False
      with "4.prems" notin dom
      have "succ_loop fuel g d is_end sel startNode rest = Some (Inr sel')" by simp
      from "4.IH"(3) [OF notin dom False this] show ?thesis by auto
    next
      case True
      from "4.prems" notin dom True obtain sel1 where
        call: "add_nodes fuel g d is_end sel startNode succ = Some (Inr sel1)"
        and rest: "succ_loop fuel g d is_end sel1 startNode rest = Some (Inr sel')"
        by (auto split: option.splits sum.splits)
      from "4.IH"(1) [OF notin dom True call]
      have s1: "set (fst sel) \<subseteq> set (fst sel1)"
        and r1: "(\<not> is_end succ \<longrightarrow> succ \<in> ?R) \<and> set (fst sel) \<subseteq> ?R \<longrightarrow> set (fst sel1) \<subseteq> ?R"
        by simp_all
      from "4.IH"(2) [OF notin dom True call refl rest]
      have s2: "set (fst sel1) \<subseteq> set (fst sel')"
        and r2: "(\<exists>u\<in>?R. set rest \<subseteq> set (g_succ g u)) \<and> set (fst sel1) \<subseteq> ?R
                 \<longrightarrow> set (fst sel') \<subseteq> ?R"
        by simp_all
      have "set (fst sel') \<subseteq> ?R"
        if u: "\<exists>u\<in>?R. set (succ # rest) \<subseteq> set (g_succ g u)" and sel: "set (fst sel) \<subseteq> ?R"
      proof -
        from u obtain u where u: "u \<in> ?R" "succ \<in> set (g_succ g u)" "set rest \<subseteq> set (g_succ g u)"
          by auto
        have "\<not> is_end succ \<longrightarrow> succ \<in> ?R"
          using region_of.step [OF u(1), of succ] u(2) dom True by simp
        with r1 sel have "set (fst sel1) \<subseteq> ?R" by blast
        with r2 u(1,3) show ?thesis by blast
      qed
      with s1 s2 show ?thesis by blast
    qed
  qed
qed

text \<open>
  The nodes a call adds are closed: every successor of an added node that the start node
  dominates and that is not an end node is a member when the call returns.
\<close>

lemma add_nodes_closed:
  "add_nodes fuel g d is_end sel startNode node = Some (Inr sel') \<Longrightarrow>
     (\<not> is_end node \<longrightarrow> node \<in> set (fst sel')) \<and>
     (\<forall>u\<in>set (fst sel') - set (fst sel). \<forall>v\<in>set (g_succ g u).
        dominates_node d startNode v = Inr True \<and> \<not> is_end v \<longrightarrow> v \<in> set (fst sel'))"
  and succ_loop_closed:
  "succ_loop fuel g d is_end sel startNode ss = Some (Inr sel') \<Longrightarrow>
     (\<forall>v\<in>set ss. dominates_node d startNode v = Inr True \<and> \<not> is_end v \<longrightarrow> v \<in> set (fst sel')) \<and>
     (\<forall>u\<in>set (fst sel') - set (fst sel). \<forall>v\<in>set (g_succ g u).
        dominates_node d startNode v = Inr True \<and> \<not> is_end v \<longrightarrow> v \<in> set (fst sel'))"
proof (induction fuel g d is_end sel startNode node and fuel g d is_end sel startNode ss
       arbitrary: sel' and sel' rule: add_nodes_succ_loop.induct)
  case (1 g d is_end sel startNode node)
  then show ?case by simp
next
  case (2 fuel g d is_end sel startNode node)
  show ?case
  proof (cases "is_end node")
    case True
    with "2.prems" have "sel' = (fst sel, snd sel @ [node])" by simp
    with True show ?thesis by simp
  next
    case False
    with "2.prems" have run:
      "succ_loop fuel g d is_end (fst sel @ [node], snd sel @ [node]) startNode (g_succ g node)
         = Some (Inr sel')"
      by simp
    from succ_loop_sound [OF run] have mem: "node \<in> set (fst sel')" by simp
    from "2.IH" [OF False run]
    have own: "\<forall>v\<in>set (g_succ g node).
                 dominates_node d startNode v = Inr True \<and> \<not> is_end v \<longrightarrow> v \<in> set (fst sel')"
      and others: "\<forall>u\<in>set (fst sel') - set (fst sel @ [node]). \<forall>v\<in>set (g_succ g u).
                 dominates_node d startNode v = Inr True \<and> \<not> is_end v \<longrightarrow> v \<in> set (fst sel')"
      unfolding fst_conv by blast+
    have "\<forall>u\<in>set (fst sel') - set (fst sel). \<forall>v\<in>set (g_succ g u).
            dominates_node d startNode v = Inr True \<and> \<not> is_end v \<longrightarrow> v \<in> set (fst sel')"
    proof
      fix u assume u: "u \<in> set (fst sel') - set (fst sel)"
      show "\<forall>v\<in>set (g_succ g u).
              dominates_node d startNode v = Inr True \<and> \<not> is_end v \<longrightarrow> v \<in> set (fst sel')"
      proof (cases "u = node")
        case True
        with own show ?thesis by simp
      next
        case False
        with u have "u \<in> set (fst sel') - set (fst sel @ [node])" by simp
        with others show ?thesis by blast
      qed
    qed
    with mem show ?thesis by blast
  qed
next
  case (3 fuel g d is_end sel startNode)
  then show ?case by simp
next
  case (4 fuel g d is_end sel startNode succ rest)
  show ?case
  proof (cases "succ \<in> set (fst sel)")
    case True
    with "4.prems" have run: "succ_loop fuel g d is_end sel startNode rest = Some (Inr sel')"
      by simp
    from succ_loop_sound [OF run] True have "succ \<in> set (fst sel')" by blast
    with "4.IH"(4) [OF _ run] True show ?thesis by auto
  next
    case notin: False
    from "4.prems" notin obtain b where dom: "dominates_node d startNode succ = Inr b"
      by (cases "dominates_node d startNode succ") simp_all
    show ?thesis
    proof (cases b)
      case False
      with "4.prems" notin dom
      have run: "succ_loop fuel g d is_end sel startNode rest = Some (Inr sel')" by simp
      from "4.IH"(3) [OF notin dom False run] dom False show ?thesis by auto
    next
      case True
      from "4.prems" notin dom True obtain sel1 where
        call: "add_nodes fuel g d is_end sel startNode succ = Some (Inr sel1)"
        and rest: "succ_loop fuel g d is_end sel1 startNode rest = Some (Inr sel')"
        by (auto split: option.splits sum.splits)
      from succ_loop_sound [OF rest] have mono: "set (fst sel1) \<subseteq> set (fst sel')" by simp
      from "4.IH"(1) [OF notin dom True call]
      have m1: "\<not> is_end succ \<longrightarrow> succ \<in> set (fst sel1)"
        and c1: "\<forall>u\<in>set (fst sel1) - set (fst sel). \<forall>v\<in>set (g_succ g u).
                  dominates_node d startNode v = Inr True \<and> \<not> is_end v \<longrightarrow> v \<in> set (fst sel1)"
        by blast+
      from "4.IH"(2) [OF notin dom True call refl rest]
      have m2: "\<forall>v\<in>set rest.
                  dominates_node d startNode v = Inr True \<and> \<not> is_end v \<longrightarrow> v \<in> set (fst sel')"
        and c2: "\<forall>u\<in>set (fst sel') - set (fst sel1). \<forall>v\<in>set (g_succ g u).
                  dominates_node d startNode v = Inr True \<and> \<not> is_end v \<longrightarrow> v \<in> set (fst sel')"
        by blast+
      have first: "\<forall>v\<in>set (succ # rest).
                  dominates_node d startNode v = Inr True \<and> \<not> is_end v \<longrightarrow> v \<in> set (fst sel')"
        using m1 m2 mono by auto
      have "\<forall>u\<in>set (fst sel') - set (fst sel). \<forall>v\<in>set (g_succ g u).
              dominates_node d startNode v = Inr True \<and> \<not> is_end v \<longrightarrow> v \<in> set (fst sel')"
      proof
        fix u assume u: "u \<in> set (fst sel') - set (fst sel)"
        show "\<forall>v\<in>set (g_succ g u).
                dominates_node d startNode v = Inr True \<and> \<not> is_end v \<longrightarrow> v \<in> set (fst sel')"
        proof (cases "u \<in> set (fst sel1)")
          case True
          with u have "u \<in> set (fst sel1) - set (fst sel)" by simp
          with c1 mono show ?thesis by blast
        next
          case False
          with u have "u \<in> set (fst sel') - set (fst sel1)" by simp
          with c2 show ?thesis by blast
        qed
      qed
      with first show ?thesis by blast
    qed
  qed
qed

text \<open>The region a returning selection yields is the closure.\<close>

lemma run_add_nodes_region:
  assumes "run_add_nodes fuel g d is_end s = Some (Inr sel)"
  shows "set (fst sel) = region_of (\<lambda>u. set (g_succ g u)) d is_end s"
proof
  let ?R = "region_of (\<lambda>u. set (g_succ g u)) d is_end s"
  from assms have run: "add_nodes fuel g d is_end ([], []) s s = Some (Inr sel)"
    by (simp add: run_add_nodes_def)
  have "\<not> is_end s \<longrightarrow> s \<in> ?R" by (simp add: region_of.start)
  with add_nodes_sound [OF run] show "set (fst sel) \<subseteq> ?R" by simp
  from add_nodes_closed [OF run]
  have st: "\<not> is_end s \<longrightarrow> s \<in> set (fst sel)"
    and cl: "\<forall>u\<in>set (fst sel). \<forall>v\<in>set (g_succ g u).
               dominates_node d s v = Inr True \<and> \<not> is_end v \<longrightarrow> v \<in> set (fst sel)"
    unfolding fst_conv by auto
  show "?R \<subseteq> set (fst sel)"
  proof
    fix r assume "r \<in> ?R"
    then show "r \<in> set (fst sel)"
    proof (induction rule: region_of.induct)
      case start
      with st show ?case by simp
    next
      case (step u v)
      with cl show ?case by blast
    qed
  qed
qed

subsection \<open>The traversal: members are distinct, and the log of the queries\<close>

lemma add_nodes_distinct:
  "add_nodes fuel g d is_end sel startNode node = Some (Inr sel') \<Longrightarrow>
     distinct (fst sel) \<Longrightarrow> node \<notin> set (fst sel) \<Longrightarrow>
     filter (\<lambda>n. \<not> is_end n) (snd sel) = fst sel \<Longrightarrow>
     distinct (fst sel') \<and> filter (\<lambda>n. \<not> is_end n) (snd sel') = fst sel'"
  and succ_loop_distinct:
  "succ_loop fuel g d is_end sel startNode ss = Some (Inr sel') \<Longrightarrow>
     distinct (fst sel) \<Longrightarrow>
     filter (\<lambda>n. \<not> is_end n) (snd sel) = fst sel \<Longrightarrow>
     distinct (fst sel') \<and> filter (\<lambda>n. \<not> is_end n) (snd sel') = fst sel'"
proof (induction fuel g d is_end sel startNode node and fuel g d is_end sel startNode ss
       arbitrary: sel' and sel' rule: add_nodes_succ_loop.induct)
  case (1 g d is_end sel startNode node)
  then show ?case by simp
next
  case (2 fuel g d is_end sel startNode node)
  show ?case
  proof (cases "is_end node")
    case True
    with "2.prems"(1) have "sel' = (fst sel, snd sel @ [node])" by simp
    with True "2.prems"(2,4) show ?thesis by simp
  next
    case False
    with "2.prems"(1) have run:
      "succ_loop fuel g d is_end (fst sel @ [node], snd sel @ [node]) startNode (g_succ g node)
         = Some (Inr sel')"
      by simp
    have a: "distinct (fst (fst sel @ [node], snd sel @ [node]))"
      using "2.prems"(2,3) by simp
    have b: "filter (\<lambda>n. \<not> is_end n) (snd (fst sel @ [node], snd sel @ [node]))
               = fst (fst sel @ [node], snd sel @ [node])"
      using "2.prems"(4) False by simp
    from "2.IH" [OF False run a b] show ?thesis .
  qed
next
  case (3 fuel g d is_end sel startNode)
  then show ?case by simp
next
  case (4 fuel g d is_end sel startNode succ rest)
  show ?case
  proof (cases "succ \<in> set (fst sel)")
    case True
    with "4.prems"(1) have run: "succ_loop fuel g d is_end sel startNode rest = Some (Inr sel')"
      by simp
    have nn: "\<not> succ \<notin> set (fst sel)" using True by simp
    from "4.IH"(4) [OF nn run "4.prems"(2,3)] show ?thesis .
  next
    case notin: False
    from "4.prems"(1) notin obtain b where dom: "dominates_node d startNode succ = Inr b"
      by (cases "dominates_node d startNode succ") simp_all
    show ?thesis
    proof (cases b)
      case False
      with "4.prems"(1) notin dom
      have run: "succ_loop fuel g d is_end sel startNode rest = Some (Inr sel')" by simp
      from "4.IH"(3) [OF notin dom False run "4.prems"(2,3)] show ?thesis .
    next
      case True
      from "4.prems"(1) notin dom True obtain sel1 where
        call: "add_nodes fuel g d is_end sel startNode succ = Some (Inr sel1)"
        and rest: "succ_loop fuel g d is_end sel1 startNode rest = Some (Inr sel')"
        by (auto split: option.splits sum.splits)
      from "4.IH"(1) [OF notin dom True call "4.prems"(2) notin "4.prems"(3)]
      have d1: "distinct (fst sel1)" and f1: "filter (\<lambda>n. \<not> is_end n) (snd sel1) = fst sel1"
        by blast+
      from "4.IH"(2) [OF notin dom True call refl rest d1 f1] show ?thesis .
    qed
  qed
qed

lemma count_list_filter:
  "count_list (filter P xs) n = (if P n then count_list xs n else 0)"
  by (induction xs) simp_all

lemma distinct_count_list_le: "distinct xs \<Longrightarrow> count_list xs n \<le> 1"
  by (induction xs) (auto simp: count_list_0_iff)

subsection \<open>The traversal returns\<close>

lemma dominates_node_valid:
  "dominates_node d a b = Inr v \<Longrightarrow> b < length d"
  by (simp add: dominates_node_def split: if_splits)

lemma card_unvisited_less:
  assumes "node < n" and "node \<notin> set xs"
  shows "card ({..<n} - set (xs @ [node])) < card ({..<n::nat} - set xs)"
proof -
  have "{..<n} - set (xs @ [node]) \<subset> {..<n} - set xs"
    using assms by auto
  then show ?thesis by (simp add: psubset_card_mono)
qed

lemma add_nodes_returns:
  "node < length d \<Longrightarrow> node \<notin> set (fst sel) \<Longrightarrow>
     card ({..<length d} - set (fst sel)) \<le> fuel \<Longrightarrow>
     add_nodes fuel g d is_end sel startNode node \<noteq> None"
  and succ_loop_returns:
  "card ({..<length d} - set (fst sel)) \<le> fuel \<Longrightarrow>
     succ_loop fuel g d is_end sel startNode ss \<noteq> None"
proof (induction fuel g d is_end sel startNode node and fuel g d is_end sel startNode ss
       rule: add_nodes_succ_loop.induct)
  case (1 g d is_end sel startNode node)
  from card_unvisited_less [OF "1.prems"(1,2)] "1.prems"(3) show ?case by simp
next
  case (2 fuel g d is_end sel startNode node)
  show ?case
  proof (cases "is_end node")
    case True
    then show ?thesis by simp
  next
    case False
    from card_unvisited_less [OF "2.prems"(1,2)] "2.prems"(3)
    have "card ({..<length d} - set (fst (fst sel @ [node], snd sel @ [node]))) \<le> fuel"
      by simp
    from "2.IH" [OF False this] False show ?thesis by simp
  qed
next
  case (3 fuel g d is_end sel startNode)
  then show ?case by simp
next
  case (4 fuel g d is_end sel startNode succ rest)
  show ?case
  proof (cases "succ \<in> set (fst sel)")
    case True
    then have nn: "\<not> succ \<notin> set (fst sel)" by simp
    from "4.IH"(4) [OF nn "4.prems"] True show ?thesis by simp
  next
    case notin: False
    show ?thesis
    proof (cases "dominates_node d startNode succ")
      case (Inl err)
      with notin show ?thesis by simp
    next
      case (Inr b)
      show ?thesis
      proof (cases b)
        case False
        from "4.IH"(3) [OF notin Inr False "4.prems"] notin Inr False show ?thesis by simp
      next
        case True
        from dominates_node_valid [OF Inr] have valid: "succ < length d" .
        from "4.IH"(1) [OF notin Inr True valid notin "4.prems"]
        obtain r where call: "add_nodes fuel g d is_end sel startNode succ = Some r"
          by blast
        show ?thesis
        proof (cases r)
          case (Inl err)
          with notin Inr True call show ?thesis by simp
        next
          case r: (Inr sel1)
          with call have call': "add_nodes fuel g d is_end sel startNode succ = Some (Inr sel1)"
            by simp
          from add_nodes_sound [OF call'] have "set (fst sel) \<subseteq> set (fst sel1)" by simp
          then have "{..<length d} - set (fst sel1) \<subseteq> {..<length d} - set (fst sel)"
            by blast
          then have "card ({..<length d} - set (fst sel1)) \<le> card ({..<length d} - set (fst sel))"
            by (simp add: card_mono)
          with "4.prems" have "card ({..<length d} - set (fst sel1)) \<le> fuel" by simp
          from "4.IH"(2) [OF notin Inr True call r this] notin Inr True call r
          show ?thesis by simp
        qed
      qed
    qed
  qed
qed

lemma run_add_nodes_returns:
  "\<exists>r. run_add_nodes (Suc (length d)) g d is_end s = Some r"
proof (cases "is_end s")
  case True
  then show ?thesis by (simp add: run_add_nodes_def)
next
  case False
  have "card ({..<length d} - set (fst ([] @ [s], [] @ [s]))) \<le> card {..<length d}"
    by (intro card_mono) auto
  then have "card ({..<length d} - set (fst ([] @ [s], [] @ [s]))) \<le> length d" by simp
  from succ_loop_returns [OF this, of g is_end s "g_succ g s"] False
  show ?thesis by (simp add: run_add_nodes_def)
qed

subsection \<open>The traversal raises no error on a valid table\<close>

lemma add_nodes_no_error:
  "wf_graph g \<Longrightarrow> length d = g_size g \<Longrightarrow> \<forall>n<g_size g. length (d ! n) = g_size g \<Longrightarrow>
     startNode < g_size g \<Longrightarrow> node < g_size g \<Longrightarrow>
     add_nodes fuel g d is_end sel startNode node \<noteq> Some (Inl err)"
  and succ_loop_no_error:
  "wf_graph g \<Longrightarrow> length d = g_size g \<Longrightarrow> \<forall>n<g_size g. length (d ! n) = g_size g \<Longrightarrow>
     startNode < g_size g \<Longrightarrow> \<forall>s\<in>set ss. s < g_size g \<Longrightarrow>
     succ_loop fuel g d is_end sel startNode ss \<noteq> Some (Inl err)"
proof (induction fuel g d is_end sel startNode node and fuel g d is_end sel startNode ss
       rule: add_nodes_succ_loop.induct)
  case (1 g d is_end sel startNode node)
  then show ?case by simp
next
  case (2 fuel g d is_end sel startNode node)
  show ?case
  proof (cases "is_end node")
    case True
    then show ?thesis by simp
  next
    case False
    have "\<forall>s\<in>set (g_succ g node). s < g_size g"
      using wf_graphD(5) [OF "2.prems"(1,5)] by blast
    from "2.IH" [OF False "2.prems"(1,2,3,4) this] False show ?thesis by simp
  qed
next
  case (3 fuel g d is_end sel startNode)
  then show ?case by simp
next
  case (4 fuel g d is_end sel startNode succ rest)
  from "4.prems"(5) have succ: "succ < g_size g" and rest: "\<forall>s\<in>set rest. s < g_size g"
    by simp_all
  show ?case
  proof (cases "succ \<in> set (fst sel)")
    case True
    then have nn: "\<not> succ \<notin> set (fst sel)" by simp
    from "4.IH"(4) [OF nn "4.prems"(1,2,3,4) rest] True show ?thesis by simp
  next
    case notin: False
    have dom: "dominates_node d startNode succ = Inr (d ! succ ! startNode)"
      using succ "4.prems"(2,3,4) by (simp add: dominates_node_def bitsett_test_def)
    show ?thesis
    proof (cases "d ! succ ! startNode")
      case False
      from "4.IH"(3) [OF notin dom False "4.prems"(1,2,3,4) rest] notin dom False
      show ?thesis by simp
    next
      case True
      note call = "4.IH"(1) [OF notin dom True "4.prems"(1,2,3,4) succ]
      show ?thesis
      proof (cases "add_nodes fuel g d is_end sel startNode succ")
        case None
        with notin dom True show ?thesis by simp
      next
        case (Some r)
        show ?thesis
        proof (cases r)
          case (Inl e)
          with Some call notin dom True show ?thesis by simp
        next
          case (Inr sel1)
          from "4.IH"(2) [OF notin dom True Some Inr "4.prems"(1,2,3,4) rest]
            notin dom True Some Inr
          show ?thesis by simp
        qed
      qed
    qed
  qed
qed

subsection \<open>Region selection\<close>

text \<open>
  C3: for a graph within the contract of the graph view and a valid start node, the
  constructor returns a table, the selection with that table returns a region (a call
  depth of one more than the node count is enough), and the start node dominates every
  node of any region the selection returns.
\<close>

theorem region_confinement:
  assumes "wf_graph g" and "s < g_size g"
  shows "\<exists>d. DominatorInfo g = Some (Inr d) \<and>
           (\<exists>sel. run_add_nodes (Suc (g_size g)) g d is_end s = Some (Inr sel)) \<and>
           (\<forall>fuel sel. run_add_nodes fuel g d is_end s = Some (Inr sel) \<longrightarrow>
              (\<forall>r\<in>set (fst sel). dominates_node d s r = Inr True))"
proof -
  from DominatorInfo_total [OF assms(1)] obtain d t where
    d: "DominatorInfo g = Some (Inr d)" and inv: "loop_inv g (d, t)" by blast
  from inv have len: "length d = g_size g" and rows: "\<forall>n<g_size g. length (d ! n) = g_size g"
    and own: "\<forall>n<g_size g. d ! n ! n"
    by (simp_all add: loop_inv_iff)
  from own assms(2) len rows have self: "dominates_node d s s = Inr True"
    by (simp add: dominates_node_def bitsett_test_def)
  from run_add_nodes_returns [of d g is_end s] len
  obtain r where r: "run_add_nodes (Suc (g_size g)) g d is_end s = Some r" by auto
  have "r \<noteq> Inl err" for err
    using add_nodes_no_error [OF assms(1) len rows assms(2,2), of "Suc (g_size g)" is_end "([], [])" err] r
    by (auto simp: run_add_nodes_def)
  then obtain sel where "r = Inr sel" by (cases r) auto
  with r have ex: "\<exists>sel. run_add_nodes (Suc (g_size g)) g d is_end s = Some (Inr sel)" by blast
  have conf: "\<forall>fuel sel. run_add_nodes fuel g d is_end s = Some (Inr sel) \<longrightarrow>
              (\<forall>r\<in>set (fst sel). dominates_node d s r = Inr True)"
  proof (intro allI impI ballI)
    fix fuel sel r
    assume run: "run_add_nodes fuel g d is_end s = Some (Inr sel)" and "r \<in> set (fst sel)"
    with run_add_nodes_region [OF run]
    have "r \<in> region_of (\<lambda>u. set (g_succ g u)) d is_end s" by simp
    from region_of_dominated [OF this] self show "dominates_node d s r = Inr True" by auto
  qed
  from d ex conf show ?thesis by blast
qed

theorem region_confinement_witness:
  "wf_graph diamond_graph \<and> 0 < g_size diamond_graph \<and>
   DominatorInfo diamond_graph = Some (Inr diamond_doms) \<and>
   run_add_nodes 3 diamond_graph diamond_doms (only_node 3) 0
     = Some (Inr ([0, 1, 2], [0, 1, 3, 2, 3])) \<and>
   dominates_node diamond_doms 0 0 = Inr True \<and>
   dominates_node diamond_doms 0 1 = Inr True \<and>
   dominates_node diamond_doms 0 2 = Inr True"
proof -
  have w: "wf_graph diamond_graph" by code_simp
  have s: "0 < g_size diamond_graph" by (simp add: diamond_graph_def)
  have t: "DominatorInfo diamond_graph = Some (Inr diamond_doms)" by code_simp
  have run: "run_add_nodes 3 diamond_graph diamond_doms (only_node 3) 0
               = Some (Inr ([0, 1, 2], [0, 1, 3, 2, 3]))"
    by code_simp
  from region_confinement [OF w s, of "only_node 3"] t
  have "\<forall>fuel sel. run_add_nodes fuel diamond_graph diamond_doms (only_node 3) 0 = Some (Inr sel) \<longrightarrow>
              (\<forall>r\<in>set (fst sel). dominates_node diamond_doms 0 r = Inr True)"
    by auto
  with run have "\<forall>r\<in>set (fst ([0, 1, 2::nat], [0, 1, 3, 2, 3::nat])). dominates_node diamond_doms 0 r = Inr True"
    by blast
  then have "dominates_node diamond_doms 0 0 = Inr True \<and>
             dominates_node diamond_doms 0 1 = Inr True \<and>
             dominates_node diamond_doms 0 2 = Inr True"
    by simp
  with w s t run show ?thesis by blast
qed

text \<open>
  C8 (as the spec states it, refuted): on the diamond with node 3 the only end node, the
  selection from 0 calls \<^verbatim>\<open>is_end_node\<close> on node 3 twice, once from node 1 and once from
  node 2: an end node is never put into \<^verbatim>\<open>nodes\<close>, so the test \<^verbatim>\<open>nodes.has(succ)\<close> does
  not stop the second call.
\<close>

theorem boundary_queried_twice_counterexample:
  "DominatorInfo diamond_graph = Some (Inr diamond_doms) \<and>
   run_add_nodes 3 diamond_graph diamond_doms (only_node 3) 0
     = Some (Inr ([0, 1, 2], [0, 1, 3, 2, 3])) \<and>
   count_list (snd ([0, 1, 2::nat], [0, 1, 3, 2, 3::nat])) 3 = 2"
proof -
  have "DominatorInfo diamond_graph = Some (Inr diamond_doms)" by code_simp
  moreover have "run_add_nodes 3 diamond_graph diamond_doms (only_node 3) 0
     = Some (Inr ([0, 1, 2], [0, 1, 3, 2, 3]))" by code_simp
  moreover have "count_list (snd ([0, 1, 2::nat], [0, 1, 3, 2, 3::nat])) 3 = 2" by simp
  ultimately show ?thesis by blast
qed

text \<open>
  C8 (amended): the selection returns (a call depth of one more than the table's size is
  enough), and in any returned selection the members of the region are pairwise
  distinct and are exactly the queried nodes that are not end nodes, in query order: a
  node that is not an end node is queried at most once. End nodes are not covered.
\<close>

theorem non_end_nodes_queried_once:
  "(\<exists>r. run_add_nodes (Suc (length d)) g d is_end s = Some r) \<and>
   (\<forall>fuel sel. run_add_nodes fuel g d is_end s = Some (Inr sel) \<longrightarrow>
      distinct (fst sel) \<and> filter (\<lambda>n. \<not> is_end n) (snd sel) = fst sel \<and>
      (\<forall>n. \<not> is_end n \<longrightarrow> count_list (snd sel) n \<le> 1))"
proof (intro conjI allI impI)
  show "\<exists>r. run_add_nodes (Suc (length d)) g d is_end s = Some r"
    by (rule run_add_nodes_returns)
next
  fix fuel sel
  assume "run_add_nodes fuel g d is_end s = Some (Inr sel)"
  then have run: "add_nodes fuel g d is_end ([], []) s s = Some (Inr sel)"
    by (simp add: run_add_nodes_def)
  from add_nodes_distinct [OF run]
  have dist: "distinct (fst sel)" and log: "filter (\<lambda>n. \<not> is_end n) (snd sel) = fst sel"
    by simp_all
  show "distinct (fst sel)" by (rule dist)
  show "filter (\<lambda>n. \<not> is_end n) (snd sel) = fst sel" by (rule log)
  fix n assume "\<not> is_end n"
  then have "count_list (snd sel) n = count_list (filter (\<lambda>n. \<not> is_end n) (snd sel)) n"
    by (simp add: count_list_filter)
  also have "\<dots> \<le> 1" unfolding log by (rule distinct_count_list_le [OF dist])
  finally show "count_list (snd sel) n \<le> 1" .
qed

theorem non_end_nodes_queried_once_witness:
  "run_add_nodes 3 diamond_graph diamond_doms (only_node 3) 0
     = Some (Inr ([0, 1, 2], [0, 1, 3, 2, 3])) \<and>
   \<not> only_node 3 2 \<and>
   distinct (fst ([0, 1, 2::nat], [0, 1, 3, 2, 3::nat])) \<and>
   filter (\<lambda>n. \<not> only_node 3 n) (snd ([0, 1, 2::nat], [0, 1, 3, 2, 3::nat])) = fst ([0, 1, 2::nat], [0, 1, 3, 2, 3::nat]) \<and>
   count_list (snd ([0, 1, 2::nat], [0, 1, 3, 2, 3::nat])) 2 \<le> 1"
proof -
  have run: "run_add_nodes 3 diamond_graph diamond_doms (only_node 3) 0
               = Some (Inr ([0, 1, 2], [0, 1, 3, 2, 3]))"
    by code_simp
  have ne: "\<not> only_node 3 2" by (simp add: only_node_def)
  from non_end_nodes_queried_once [of diamond_doms diamond_graph "only_node 3" 0] run
  have "distinct (fst ([0, 1, 2::nat], [0, 1, 3, 2, 3::nat])) \<and>
        filter (\<lambda>n. \<not> only_node 3 n) (snd ([0, 1, 2::nat], [0, 1, 3, 2, 3::nat]))
          = fst ([0, 1, 2::nat], [0, 1, 3, 2, 3::nat]) \<and>
        (\<forall>n. \<not> only_node 3 n \<longrightarrow> count_list (snd ([0, 1, 2::nat], [0, 1, 3, 2, 3::nat])) n \<le> 1)"
    by blast
  with run ne show ?thesis by blast
qed

text \<open>
  C9: for a fixed table, start node and boundary predicate, and two graph views whose
  successor lists hold the same nodes in any order (the same view in particular), both
  selections return, and any region one returns has the same members as any region
  the other returns.
\<close>

theorem region_membership_order_independent:
  assumes "\<forall>n. set (g_succ g' n) = set (g_succ g n)"
  shows "(\<exists>r. run_add_nodes (Suc (length d)) g d is_end s = Some r) \<and>
         (\<exists>r'. run_add_nodes (Suc (length d)) g' d is_end s = Some r') \<and>
         (\<forall>fuel fuel' sel sel'.
            run_add_nodes fuel g d is_end s = Some (Inr sel) \<and>
            run_add_nodes fuel' g' d is_end s = Some (Inr sel') \<longrightarrow>
            set (fst sel) = set (fst sel'))"
proof (intro conjI allI impI)
  show "\<exists>r. run_add_nodes (Suc (length d)) g d is_end s = Some r"
    by (rule run_add_nodes_returns)
  show "\<exists>r'. run_add_nodes (Suc (length d)) g' d is_end s = Some r'"
    by (rule run_add_nodes_returns)
next
  fix fuel fuel' sel sel'
  assume both: "run_add_nodes fuel g d is_end s = Some (Inr sel) \<and>
                run_add_nodes fuel' g' d is_end s = Some (Inr sel')"
  from assms have "(\<lambda>u. set (g_succ g' u)) = (\<lambda>u. set (g_succ g u))" by auto
  with run_add_nodes_region [of fuel g d is_end s sel]
    run_add_nodes_region [of fuel' g' d is_end s sel'] both
  show "set (fst sel) = set (fst sel')" by simp
qed

theorem region_membership_order_independent_witness:
  "(\<forall>n. set (g_succ diamond_rev n) = set (g_succ diamond_graph n)) \<and>
   run_add_nodes 3 diamond_graph diamond_doms (only_node 3) 0
     = Some (Inr ([0, 1, 2], [0, 1, 3, 2, 3])) \<and>
   run_add_nodes 4 diamond_rev diamond_doms (only_node 3) 0
     = Some (Inr ([0, 2, 1], [0, 2, 3, 1, 3])) \<and>
   set (fst ([0, 1, 2::nat], [0, 1, 3, 2, 3::nat])) = set (fst ([0, 2, 1::nat], [0, 2, 3, 1, 3::nat]))"
proof -
  have same: "\<forall>n. set (g_succ diamond_rev n) = set (g_succ diamond_graph n)"
    by (simp add: diamond_rev_def)
  have run: "run_add_nodes 3 diamond_graph diamond_doms (only_node 3) 0
               = Some (Inr ([0, 1, 2], [0, 1, 3, 2, 3]))"
    by code_simp
  have run': "run_add_nodes 4 diamond_rev diamond_doms (only_node 3) 0
               = Some (Inr ([0, 2, 1], [0, 2, 3, 1, 3]))"
    by code_simp
  from region_membership_order_independent [OF same, of diamond_doms "only_node 3" 0] run run'
  have "set (fst ([0, 1, 2::nat], [0, 1, 3, 2, 3::nat])) = set (fst ([0, 2, 1::nat], [0, 2, 3, 1, 3::nat]))"
    by blast
  with same run run' show ?thesis by blast
qed

end
